theory Spec2Isabelle
  imports Main "HOL-Library.Word" "HOL-Library.AList"
begin

unbundle bit_operations_syntax

section \<open>Data model of \<^verbatim>\<open>protocol.go\<close>\<close>

text \<open>
  The connection of \<^verbatim>\<open>src/protocol/protocol.go\<close> as a state record, each method
  as a function from state to state. Every method body that the source runs under
  \<^verbatim>\<open>c.Lock()\<close> is one atomic step. What the outside world decides (whether the
  transport accepts a write, what the reader finds on the stream, what the receiver
  answers, what time it is) is an argument of the step. A Go run-time panic is the
  result \<open>None\<close>.
\<close>

type_synonym bytes = "8 word list"

definition messageTypeIndex :: int where "messageTypeIndex = 1"
definition messageTypeRequest :: int where "messageTypeRequest = 2"
definition messageTypeResponse :: int where "messageTypeResponse = 3"
definition messageTypePing :: int where "messageTypePing = 4"
definition messageTypePong :: int where "messageTypePong = 5"
definition messageTypeIndexUpdate :: int where "messageTypeIndexUpdate = 6"

record BlockInfo =
  Length :: "32 word"
  Hash :: bytes

record FileInfo =
  Name :: string
  Flags :: "32 word"
  Modified :: "64 word"
  Blocks :: "BlockInfo list"

text \<open>\<^verbatim>\<open>var ErrClosed\<close>; every other Go error value is opaque to the protocol layer.\<close>

datatype error = ErrClosed | ErrOther string

record asyncResult =
  val :: bytes
  err :: "error option"

text \<open>
  The calls made on the \<^verbatim>\<open>Model\<close> interface (the receiver), in the order they are made.
\<close>

datatype call =
  CIndex string "FileInfo list"
| CIndexUpdate string "FileInfo list"
| CRequest string string "64 word" "32 word" bytes
| CClose string

subsection \<open>Header, request and the marshalling writer and reader\<close>

text \<open>
  Modelled from the spec: the types \<^verbatim>\<open>header\<close> and \<^verbatim>\<open>request\<close> and the function
  \<^verbatim>\<open>encodeHeader\<close>/\<^verbatim>\<open>decodeHeader\<close> are declared in a file of the package that is not
  under \<^verbatim>\<open>src/\<close>. The fields are in the order of the positional literals
  \<^verbatim>\<open>header{0, c.nextId, msgType}\<close> and \<^verbatim>\<open>request{name, offset, size, hash}\<close>; the
  packing is the spec's: version (4 bits), msgID (12 bits), msgType (8 bits),
  reserved (8 bits, zero), in a 32-bit integer.
\<close>

record header =
  version :: int
  msgID :: int
  msgType :: int

record request =
  rname :: string
  roffset :: "64 word"
  rsize :: "32 word"
  rhash :: bytes

definition encodeHeader :: "header \<Rightarrow> 32 word" where
  "encodeHeader h =
     push_bit 28 (word_of_int (version h AND 0xf)) +
     push_bit 16 (word_of_int (msgID h AND 0xfff)) +
     push_bit 8 (word_of_int (msgType h AND 0xff))"

definition decodeHeader :: "32 word \<Rightarrow> header" where
  "decodeHeader u =
     \<lparr>version = uint (drop_bit 28 u) AND 0xf,
      msgID = uint (drop_bit 16 u) AND 0xfff,
      msgType = uint (drop_bit 8 u) AND 0xff\<rparr>"

text \<open>
  Modelled from the spec: \<^verbatim>\<open>marshalWriter\<close> is not under \<^verbatim>\<open>src/\<close>. The spec says that
  after an I/O error the codec latches the error and every later write is a no-op that
  keeps it. The byte encoding of a body is not modelled: \<open>wlog\<close> is the sequence of
  values the writer has accepted. The argument \<open>ok\<close> of a write says whether the
  transport under the writer accepts it.
\<close>

datatype wire =
  WUint32 "32 word"
| WIndex "FileInfo list"
| WRequest request
| WResponse bytes

record marshalWriter =
  wlog :: "wire list"
  werr :: "error option"

definition put :: "marshalWriter \<Rightarrow> bool \<Rightarrow> wire \<Rightarrow> marshalWriter" where
  "put w ok x =
     (if werr w \<noteq> None then w
      else if ok then w\<lparr>wlog := wlog w @ [x]\<rparr>
      else w\<lparr>werr := Some (ErrOther ''write'')\<rparr>)"

definition writeUint32 :: "marshalWriter \<Rightarrow> bool \<Rightarrow> 32 word \<Rightarrow> marshalWriter" where
  "writeUint32 w ok v = put w ok (WUint32 v)"

definition writeHeader :: "marshalWriter \<Rightarrow> bool \<Rightarrow> header \<Rightarrow> marshalWriter" where
  "writeHeader w ok h = writeUint32 w ok (encodeHeader h)"

definition writeIndex :: "marshalWriter \<Rightarrow> bool \<Rightarrow> FileInfo list \<Rightarrow> marshalWriter" where
  "writeIndex w ok idx = put w ok (WIndex idx)"

definition writeRequest :: "marshalWriter \<Rightarrow> bool \<Rightarrow> request \<Rightarrow> marshalWriter" where
  "writeRequest w ok r = put w ok (WRequest r)"

definition writeResponse :: "marshalWriter \<Rightarrow> bool \<Rightarrow> bytes \<Rightarrow> marshalWriter" where
  "writeResponse w ok d = put w ok (WResponse d)"

text \<open>
  What the transport does during one method call: whether it accepts the header write
  and the body write, and what \<^verbatim>\<open>Flush()\<close> of the compressing writer returns.
\<close>

record io =
  header_ok :: bool
  body_ok :: bool
  flush_err :: "error option"

definition io_ok :: io where
  "io_ok = \<lparr>header_ok = True, body_ok = True, flush_err = None\<rparr>"

text \<open>
  Modelled from the spec: \<^verbatim>\<open>marshalReader\<close> is not under \<^verbatim>\<open>src/\<close>. It latches its
  first error like the writer; a read on a latched reader is a no-op that returns the
  zero value. The argument of a read is what the stream holds at that point: \<open>None\<close>
  for a transport or decoding failure.
\<close>

record marshalReader =
  rerr :: "error option"

definition get :: "marshalReader \<Rightarrow> 'a option \<Rightarrow> 'a \<Rightarrow> marshalReader \<times> 'a" where
  "get r x zero =
     (if rerr r \<noteq> None then (r, zero)
      else case x of
        None \<Rightarrow> (r\<lparr>rerr := Some (ErrOther ''read'')\<rparr>, zero)
      | Some v \<Rightarrow> (r, v))"

definition readHeader :: "marshalReader \<Rightarrow> 32 word option \<Rightarrow> marshalReader \<times> header" where
  "readHeader r x = (case get r x 0 of (r', u) \<Rightarrow> (r', decodeHeader u))"

definition readIndex :: "marshalReader \<Rightarrow> FileInfo list option \<Rightarrow> marshalReader \<times> FileInfo list" where
  "readIndex r x = get r x []"

definition readRequest :: "marshalReader \<Rightarrow> request option \<Rightarrow> marshalReader \<times> request" where
  "readRequest r x = get r x \<lparr>rname = [], roffset = 0, rsize = 0, rhash = []\<rparr>"

definition readResponse :: "marshalReader \<Rightarrow> bytes option \<Rightarrow> marshalReader \<times> bytes" where
  "readResponse r x = get r x []"

text \<open>What the reader finds on the stream during one iteration of the reader loop.\<close>

record inbound =
  in_header :: "32 word option"
  in_index :: "FileInfo list option"
  in_request :: "request option"
  in_response :: "bytes option"

subsection \<open>Channels\<close>

text \<open>
  A reply channel \<^verbatim>\<open>chan asyncResult\<close> is unbuffered and has one receiver, the caller
  that made it. The reader loop only ever does \<^verbatim>\<open>rc <- r; close(rc)\<close> on it and
  \<^verbatim>\<open>close\<close> only \<^verbatim>\<open>close(ch)\<close>, so a channel is in one of three states: nothing
  has happened and the caller blocks (\<open>Open\<close>); a value was handed to the caller and
  the channel closed (\<open>Sent\<close>); it was closed with no value (\<open>Closed\<close>). Sending on
  or closing a channel that is already closed panics.
\<close>

datatype chan = Open | Sent asyncResult | Closed

fun chan_send_close :: "chan \<Rightarrow> asyncResult \<Rightarrow> chan option" where
  "chan_send_close Open r = Some (Sent r)"
| "chan_send_close _ r = None"

fun chan_close :: "chan \<Rightarrow> chan option" where
  "chan_close Open = Some Closed"
| "chan_close _ = None"

subsection \<open>The connection\<close>

text \<open>
  The fields of \<^verbatim>\<open>type Connection struct\<close>. \<open>receiver\<close> holds the calls made on the
  receiver so far. A Go map that may be \<^verbatim>\<open>nil\<close> is an option: \<open>awaiting\<close> is an
  association list with distinct keys (Go ranges over it in \<^verbatim>\<open>close\<close>), \<open>indexSent\<close>
  a map. \<open>chans\<close> is the store of the channels made so far and \<open>nextChan\<close> the next
  fresh channel: \<^verbatim>\<open>make(chan asyncResult)\<close> takes \<open>nextChan\<close> and opens it. Times and durations
  are nanoseconds. The statistics fields are left out: no operation below reads them.
\<close>

record Connection =
  ID :: string
  receiver :: "call list"
  mreader :: marshalReader
  mwriter :: marshalWriter
  closed :: bool
  awaiting :: "(int \<times> nat) list option"
  nextId :: int
  peerLatency :: int
  indexSent :: "(string \<rightharpoonup> 64 word) option"
  lastReceive :: int
  chans :: "nat \<Rightarrow> chan"
  nextChan :: nat


definition NewConnection :: "string \<Rightarrow> int \<Rightarrow> Connection" where
  "NewConnection nodeID now =
     \<lparr>ID = nodeID, receiver = [], mreader = \<lparr>rerr = None\<rparr>,
      mwriter = \<lparr>wlog = [], werr = None\<rparr>, closed = False, awaiting = Some [],
      nextId = 0, peerLatency = 0, indexSent = None, lastReceive = now,
      chans = (\<lambda>_. Open), nextChan = 0\<rparr>"

definition flush :: "io \<Rightarrow> error option" where
  "flush env = flush_err env"

subsection \<open>\<^verbatim>\<open>close\<close>\<close>

fun close_chans :: "nat list \<Rightarrow> (nat \<Rightarrow> chan) \<Rightarrow> (nat \<Rightarrow> chan) option" where
  "close_chans [] cs = Some cs"
| "close_chans (ch # rest) cs =
     (case chan_close (cs ch) of
        None \<Rightarrow> None
      | Some x \<Rightarrow> close_chans rest (cs(ch := x)))"

definition range_awaiting :: "(int \<times> nat) list option \<Rightarrow> nat list" where
  "range_awaiting a = (case a of None \<Rightarrow> [] | Some aw \<Rightarrow> map snd aw)"

definition close :: "Connection \<Rightarrow> Connection option" where
  "close c =
     (if closed c then Some c
      else case close_chans (range_awaiting (awaiting c)) (chans c) of
        None \<Rightarrow> None
      | Some cs \<Rightarrow>
          Some (c\<lparr>closed := True, chans := cs, awaiting := None,
                  receiver := receiver c @ [CClose (ID c)]\<rparr>))"

definition isClosed :: "Connection \<Rightarrow> bool" where
  "isClosed c = closed c"

subsection \<open>\<^verbatim>\<open>Index\<close>\<close>

fun index_first :: "FileInfo list \<Rightarrow> (string \<rightharpoonup> 64 word) \<Rightarrow> (string \<rightharpoonup> 64 word)" where
  "index_first [] m = m"
| "index_first (f # fs) m = index_first fs (m(Name f \<mapsto> Modified f))"

fun index_diff ::
  "FileInfo list \<Rightarrow> FileInfo list \<Rightarrow> (string \<rightharpoonup> 64 word) \<Rightarrow> FileInfo list \<times> (string \<rightharpoonup> 64 word)" where
  "index_diff [] diff m = (diff, m)"
| "index_diff (f # fs) diff m =
     (case m (Name f) of
        None \<Rightarrow> index_diff fs (diff @ [f]) (m(Name f \<mapsto> Modified f))
      | Some modified \<Rightarrow>
          if Modified f \<noteq> modified
          then index_diff fs (diff @ [f]) (m(Name f \<mapsto> Modified f))
          else index_diff fs diff m)"

definition Index :: "Connection \<Rightarrow> FileInfo list \<Rightarrow> io \<Rightarrow> Connection option" where
  "Index c idx env =
     (let (msgType, idx', sent) =
            (case indexSent c of
               None \<Rightarrow> (messageTypeIndex, idx, index_first idx Map.empty)
             | Some m \<Rightarrow>
                 (case index_diff idx [] m of
                    (diff, m') \<Rightarrow> (messageTypeIndexUpdate, diff, m')));
          w1 = writeHeader (mwriter c) (header_ok env)
                 \<lparr>version = 0, msgID = nextId c, msgType = msgType\<rparr>;
          w2 = writeIndex w1 (body_ok env) idx';
          err = flush env;
          c' = c\<lparr>indexSent := Some sent, mwriter := w2,
                 nextId := (nextId c + 1) AND 0xfff\<rparr>
      in if err \<noteq> None \<or> werr (mwriter c') \<noteq> None then close c' else Some c')"

subsection \<open>\<^verbatim>\<open>Request\<close> and \<^verbatim>\<open>Ping\<close>\<close>

text \<open>
  A call that waits for a reply runs in two parts. The first part, up to
  \<^verbatim>\<open>c.Unlock()\<close>, either returns at once (\<open>Returned\<close>) or leaves the caller blocked
  in \<^verbatim>\<open><-rc\<close> on its channel (\<open>Blocked\<close>). The second part is the receive: \<open>None\<close>
  while the caller is still blocked, \<open>Some\<close> of what the call returns once the channel
  has been served. Assigning into the \<^verbatim>\<open>nil\<close> map \<^verbatim>\<open>c.awaiting\<close> panics.
\<close>

datatype 'a status = Returned 'a | Blocked nat

definition Request_send ::
  "Connection \<Rightarrow> string \<Rightarrow> 64 word \<Rightarrow> 32 word \<Rightarrow> bytes \<Rightarrow> io
     \<Rightarrow> ((bytes \<times> error option) status \<times> Connection) option" where
  "Request_send c name offset sz hash env =
     (if isClosed c then Some (Returned ([], Some ErrClosed), c)
      else case awaiting c of
        None \<Rightarrow> None
      | Some aw \<Rightarrow>
          (let rc = nextChan c;
               c1 = c\<lparr>chans := (chans c)(rc := Open), nextChan := Suc rc,
                      awaiting := Some (AList.update (nextId c) rc aw)\<rparr>;
               w1 = writeHeader (mwriter c1) (header_ok env)
                      \<lparr>version = 0, msgID = nextId c1, msgType = messageTypeRequest\<rparr>;
               w2 = writeRequest w1 (body_ok env)
                      \<lparr>rname = name, roffset = offset, rsize = sz, rhash = hash\<rparr>;
               c2 = c1\<lparr>mwriter := w2\<rparr>
           in if werr (mwriter c2) \<noteq> None
              then map_option (\<lambda>c'. (Returned ([], werr (mwriter c2)), c')) (close c2)
              else case flush env of
                Some e \<Rightarrow> map_option (\<lambda>c'. (Returned ([], Some e), c')) (close c2)
              | None \<Rightarrow> Some (Blocked rc, c2\<lparr>nextId := (nextId c2 + 1) AND 0xfff\<rparr>)))"

definition Request_wait :: "Connection \<Rightarrow> nat \<Rightarrow> (bytes \<times> error option) option" where
  "Request_wait c rc =
     (case chans c rc of
        Open \<Rightarrow> None
      | Sent res \<Rightarrow> Some (val res, err res)
      | Closed \<Rightarrow> Some ([], Some ErrClosed))"

text \<open>\<open>t0\<close> is the time at which \<^verbatim>\<open>Ping\<close> is called, \<open>now\<close> the time at which it returns.\<close>

definition Ping_send :: "Connection \<Rightarrow> io \<Rightarrow> ((int \<times> bool) status \<times> Connection) option" where
  "Ping_send c env =
     (if isClosed c then Some (Returned (0, False), c)
      else case awaiting c of
        None \<Rightarrow> None
      | Some aw \<Rightarrow>
          (let rc = nextChan c;
               c1 = c\<lparr>chans := (chans c)(rc := Open), nextChan := Suc rc,
                      awaiting := Some (AList.update (nextId c) rc aw)\<rparr>;
               w1 = writeHeader (mwriter c1) (header_ok env)
                      \<lparr>version = 0, msgID = nextId c1, msgType = messageTypePing\<rparr>;
               err = flush env;
               c2 = c1\<lparr>mwriter := w1\<rparr>
           in if err \<noteq> None \<or> werr (mwriter c2) \<noteq> None
              then map_option (\<lambda>c'. (Returned (0, False), c')) (close c2)
              else Some (Blocked rc, c2\<lparr>nextId := (nextId c2 + 1) AND 0xfff\<rparr>)))"

definition Ping_wait :: "Connection \<Rightarrow> nat \<Rightarrow> int \<Rightarrow> int \<Rightarrow> (int \<times> bool) option" where
  "Ping_wait c rc t0 now =
     (case chans c rc of
        Open \<Rightarrow> None
      | Sent res \<Rightarrow> Some (now - t0, True)
      | Closed \<Rightarrow> Some (now - t0, False))"

subsection \<open>The reader loop\<close>

definition lookup_awaiting :: "(int \<times> nat) list option \<Rightarrow> int \<Rightarrow> nat option" where
  "lookup_awaiting a i = (case a of None \<Rightarrow> None | Some aw \<Rightarrow> map_of aw i)"

definition delete_awaiting :: "(int \<times> nat) list option \<Rightarrow> int \<Rightarrow> (int \<times> nat) list option" where
  "delete_awaiting a i = map_option (AList.delete i) a"

text \<open>
  \<^verbatim>\<open>rc, ok := c.awaiting[id]; if ok { rc <- res; close(rc); delete(c.awaiting, id) }\<close>,
  the same in the \<^verbatim>\<open>Response\<close> and the \<^verbatim>\<open>Pong\<close> branch.
\<close>

definition fulfil :: "Connection \<Rightarrow> int \<Rightarrow> asyncResult \<Rightarrow> Connection option" where
  "fulfil c i res =
     (case lookup_awaiting (awaiting c) i of
        None \<Rightarrow> Some c
      | Some rc \<Rightarrow>
          (case chan_send_close (chans c rc) res of
             None \<Rightarrow> None
           | Some x \<Rightarrow>
               Some (c\<lparr>chans := (chans c)(rc := x),
                       awaiting := delete_awaiting (awaiting c) i\<rparr>)))"

text \<open>
  \<^verbatim>\<open>processRequest\<close> reads the request and starts a goroutine that serves it. The
  goroutine is the separate step \<open>respond\<close>; \<open>processRequest\<close> returns what it was
  started with.
\<close>

definition processRequest ::
  "Connection \<Rightarrow> int \<Rightarrow> request option \<Rightarrow> (Connection \<times> (int \<times> request) option) option" where
  "processRequest c i x =
     (case readRequest (mreader c) x of
        (r, req) \<Rightarrow>
          (let c1 = c\<lparr>mreader := r\<rparr>
           in if rerr (mreader c1) \<noteq> None
              then map_option (\<lambda>c'. (c', None)) (close c1)
              else Some (c1, Some (i, req))))"

text \<open>
  The goroutine of \<^verbatim>\<open>processRequest\<close>. \<open>answer\<close> is what \<^verbatim>\<open>c.receiver.Request\<close>
  returns, a pair as in Go. \<^verbatim>\<open>buffers.Put\<close> returns the slice to a pool and changes
  nothing here.
\<close>

definition respond ::
  "Connection \<Rightarrow> int \<Rightarrow> request \<Rightarrow> bytes \<times> error option \<Rightarrow> io \<Rightarrow> Connection option" where
  "respond c i req answer env =
     (case answer of
        (data, _) \<Rightarrow>
          (let c1 = c\<lparr>receiver := receiver c @
                        [CRequest (ID c) (rname req) (roffset req) (rsize req) (rhash req)]\<rparr>;
               w1 = writeUint32 (mwriter c1) (header_ok env)
                      (encodeHeader \<lparr>version = 0, msgID = i, msgType = messageTypeResponse\<rparr>);
               w2 = writeResponse w1 (body_ok env) data;
               e = flush env;
               c2 = c1\<lparr>mwriter := w2\<rparr>
           in if werr (mwriter c2) \<noteq> None \<or> e \<noteq> None then close c2 else Some c2))"

text \<open>
  One iteration of \<^verbatim>\<open>for !c.isClosed() { ... }\<close> in \<^verbatim>\<open>readerLoop\<close>, entered with the
  connection open. The result holds the goroutine started in this iteration, if any.
\<close>

definition readerLoop_body ::
  "Connection \<Rightarrow> int \<Rightarrow> inbound \<Rightarrow> io \<Rightarrow> (Connection \<times> (int \<times> request) option) option" where
  "readerLoop_body c now inb env =
     (case readHeader (mreader c) (in_header inb) of
        (r, hdr) \<Rightarrow>
          (let c1 = c\<lparr>mreader := r\<rparr>
           in if rerr (mreader c1) \<noteq> None then map_option (\<lambda>c'. (c', None)) (close c1)
              else if version hdr \<noteq> 0 then map_option (\<lambda>c'. (c', None)) (close c1)
              else
                (let c2 = c1\<lparr>lastReceive := now\<rparr>
                 in if msgType hdr = messageTypeIndex then
                      (case readIndex (mreader c2) (in_index inb) of
                         (r', files) \<Rightarrow>
                           (let c3 = c2\<lparr>mreader := r'\<rparr>
                            in if rerr (mreader c3) \<noteq> None
                               then map_option (\<lambda>c'. (c', None)) (close c3)
                               else Some (c3\<lparr>receiver := receiver c3 @ [CIndex (ID c3) files]\<rparr>,
                                          None)))
                    else if msgType hdr = messageTypeIndexUpdate then
                      (case readIndex (mreader c2) (in_index inb) of
                         (r', files) \<Rightarrow>
                           (let c3 = c2\<lparr>mreader := r'\<rparr>
                            in if rerr (mreader c3) \<noteq> None
                               then map_option (\<lambda>c'. (c', None)) (close c3)
                               else Some (c3\<lparr>receiver := receiver c3 @
                                               [CIndexUpdate (ID c3) files]\<rparr>, None)))
                    else if msgType hdr = messageTypeRequest then
                      (case processRequest c2 (msgID hdr) (in_request inb) of
                         None \<Rightarrow> None
                       | Some (c3, task) \<Rightarrow>
                           if rerr (mreader c3) \<noteq> None \<or> werr (mwriter c3) \<noteq> None
                           then map_option (\<lambda>c'. (c', task)) (close c3)
                           else Some (c3, task))
                    else if msgType hdr = messageTypeResponse then
                      (case readResponse (mreader c2) (in_response inb) of
                         (r', data) \<Rightarrow>
                           (let c3 = c2\<lparr>mreader := r'\<rparr>
                            in if rerr (mreader c3) \<noteq> None
                               then map_option (\<lambda>c'. (c', None)) (close c3)
                               else map_option (\<lambda>c'. (c', None))
                                      (fulfil c3 (msgID hdr)
                                         \<lparr>val = data, err = rerr (mreader c3)\<rparr>)))
                    else if msgType hdr = messageTypePing then
                      (let w = writeUint32 (mwriter c2) (header_ok env)
                                 (encodeHeader
                                    \<lparr>version = 0, msgID = msgID hdr, msgType = messageTypePong\<rparr>);
                           e = flush env;
                           c3 = c2\<lparr>mwriter := w\<rparr>
                       in if e \<noteq> None \<or> werr (mwriter c3) \<noteq> None
                          then map_option (\<lambda>c'. (c', None)) (close c3)
                          else Some (c3, None))
                    else if msgType hdr = messageTypePong then
                      map_option (\<lambda>c'. (c', None))
                        (fulfil c2 (msgID hdr) \<lparr>val = [], err = None\<rparr>)
                    else map_option (\<lambda>c'. (c', None)) (close c2))))"

text \<open>
  The loop over what arrives, each element with its time of arrival. With nothing left
  to read the loop blocks in \<^verbatim>\<open>readHeader\<close>; once the connection is closed it ends.
  The goroutines it starts are collected.
\<close>

fun readerLoop ::
  "Connection \<Rightarrow> (int \<times> inbound \<times> io) list \<Rightarrow> (Connection \<times> (int \<times> request) list) option" where
  "readerLoop c [] = Some (c, [])"
| "readerLoop c ((now, inb, env) # rest) =
     (if isClosed c then Some (c, [])
      else case readerLoop_body c now inb env of
        None \<Rightarrow> None
      | Some (c', task) \<Rightarrow>
          map_option (\<lambda>(c'', tasks). (c'', (case task of None \<Rightarrow> [] | Some t \<Rightarrow> [t]) @ tasks))
            (readerLoop c' rest))"

subsection \<open>The keep-alive loop\<close>




subsection \<open>The connection as a transition system\<close>

text \<open>
  The steps that change a connection, one for each body the source runs atomically:
  the three calls of the owner, an iteration of the reader loop, a goroutine serving
  a request, and the two things \<^verbatim>\<open>pingerLoop\<close> does to the state (the latency update
  and the \<^verbatim>\<open>close\<close> after \<^verbatim>\<open>pingTimeout\<close>). Go's integer division truncates; a
  duration is not negative, where \<open>div\<close> agrees with it.
\<close>

datatype op =
  OpIndex "FileInfo list" io
| OpRequest string "64 word" "32 word" bytes io
| OpPing io
| OpRead int inbound io
| OpRespond int request "bytes \<times> error option" io
| OpLatency int
| OpClose

definition step :: "Connection \<Rightarrow> op \<Rightarrow> Connection option" where
  "step c x =
     (case x of
        OpIndex idx env \<Rightarrow> Index c idx env
      | OpRequest name offset sz hash env \<Rightarrow> map_option snd (Request_send c name offset sz hash env)
      | OpPing env \<Rightarrow> map_option snd (Ping_send c env)
      | OpRead now inb env \<Rightarrow>
          (if isClosed c then Some c else map_option fst (readerLoop_body c now inb env))
      | OpRespond i req answer env \<Rightarrow> respond c i req answer env
      | OpLatency lat \<Rightarrow> Some (c\<lparr>peerLatency := (peerLatency c + lat) div 2\<rparr>)
      | OpClose \<Rightarrow> close c)"

fun run :: "Connection \<Rightarrow> op list \<Rightarrow> Connection option" where
  "run c [] = Some c"
| "run c (x # xs) = (case step c x of None \<Rightarrow> None | Some c' \<Rightarrow> run c' xs)"

subsection \<open>Definitions used to state the claims\<close>

text \<open>The pairs \<^verbatim>\<open>(f.Name, f.Modified)\<close> of a list of entries.\<close>

definition sent_pairs :: "FileInfo list \<Rightarrow> (string \<times> 64 word) list" where
  "sent_pairs fs = map (\<lambda>f. (Name f, Modified f)) fs"

text \<open>
  The delta in the words of the spec: every entry whose name is absent from
  \<open>indexSent\<close> or whose modified time differs from the recorded one, where
  \<open>indexSent\<close> is the map before the call.
\<close>

definition delta_spec :: "(string \<rightharpoonup> 64 word) \<Rightarrow> FileInfo list \<Rightarrow> FileInfo list" where
  "delta_spec m fs = filter (\<lambda>f. m (Name f) \<noteq> Some (Modified f)) fs"

text \<open>An entry for the examples: no flags, no blocks.\<close>

definition entry :: "string \<Rightarrow> 64 word \<Rightarrow> FileInfo" where
  "entry n t = \<lparr>Name = n, Flags = 0, Modified = t, Blocks = []\<rparr>"

text \<open>
  The state invariant. The connection is closed exactly when \<open>awaiting\<close> is \<^verbatim>\<open>nil\<close>;
  the table has distinct keys and holds distinct channels, each made earlier and
  still open with no value sent (\<open>table_ok\<close>); \<open>nextId\<close> is a 12-bit value; a latched
  reader or writer error has closed the connection.
\<close>

definition table_ok :: "Connection \<Rightarrow> bool" where
  "table_ok c \<longleftrightarrow>
     (closed c \<longleftrightarrow> awaiting c = None) \<and>
     (case awaiting c of
        None \<Rightarrow> True
      | Some aw \<Rightarrow>
          distinct (map fst aw) \<and> distinct (map snd aw) \<and>
          list_all (\<lambda>ch. ch < nextChan c \<and> chans c ch = Open) (map snd aw))"

definition wf :: "Connection \<Rightarrow> bool" where
  "wf c \<longleftrightarrow>
     table_ok c \<and> 0 \<le> nextId c \<and> nextId c \<le> 0xfff \<and>
     (werr (mwriter c) \<noteq> None \<longrightarrow> closed c) \<and>
     (rerr (mreader c) \<noteq> None \<longrightarrow> closed c)"

text \<open>
  The names that the index bodies of a writer log hold, each with the modified time of
  the last body entry that names it.
\<close>

fun index_written ::
  "wire list \<Rightarrow> (string \<rightharpoonup> 64 word) option \<Rightarrow> (string \<rightharpoonup> 64 word) option" where
  "index_written [] acc = acc"
| "index_written (WIndex fs # rest) acc =
     index_written rest (Some (index_first fs (case acc of None \<Rightarrow> Map.empty | Some m \<Rightarrow> m)))"
| "index_written (x # rest) acc = index_written rest acc"

text \<open>
  A step is quiet when it leaves \<open>indexSent\<close> as it is and, unless the writer has a
  latched error afterwards, has written no index body.
\<close>

definition quiet :: "Connection \<Rightarrow> Connection \<Rightarrow> bool" where
  "quiet c c' \<longleftrightarrow>
     indexSent c' = indexSent c \<and>
     (werr (mwriter c') = None \<longrightarrow>
        werr (mwriter c) = None \<and>
        (\<forall>acc. index_written (wlog (mwriter c')) acc = index_written (wlog (mwriter c)) acc))"

text \<open>A \<^verbatim>\<open>Request\<close> or \<^verbatim>\<open>Ping\<close> during which the transport accepts everything.\<close>

fun healthy_send :: "op \<Rightarrow> bool" where
  "healthy_send (OpRequest name offset sz hash env) =
     (header_ok env \<and> body_ok env \<and> flush_err env = None)"
| "healthy_send (OpPing env) = (header_ok env \<and> flush_err env = None)"
| "healthy_send x = False"



text \<open>A header alone on the stream, for the examples.\<close>

definition no_body :: "32 word \<Rightarrow> inbound" where
  "no_body u = \<lparr>in_header = Some u, in_index = None, in_request = None, in_response = None\<rparr>"

text \<open>
  What the reader loop hands to the pending call for a frame with header \<open>u\<close>:
  \<^verbatim>\<open>asyncResult{data, c.mreader.err}\<close> for a Response whose body was read, with the
  reader error \<^verbatim>\<open>nil\<close> there, and \<^verbatim>\<open>asyncResult{}\<close> for a Pong.
\<close>

definition payload :: "inbound \<Rightarrow> 32 word \<Rightarrow> asyncResult option" where
  "payload inb u =
     (if msgType (decodeHeader u) = messageTypeResponse
      then map_option (\<lambda>data. \<lparr>val = data, err = None\<rparr>) (in_response inb)
      else if msgType (decodeHeader u) = messageTypePong then Some \<lparr>val = [], err = None\<rparr>
      else None)"

text \<open>The request of the spec's scenario S2, for the examples.\<close>

definition block_request :: request where
  "block_request = \<lparr>rname = ''f1'', roffset = 0, rsize = 4, rhash = [1, 2, 3, 4]\<rparr>"


text \<open>
  The two facts about \<open>indexSent\<close> that every step keeps: while the writer has no
  latched error the map is what the index bodies written so far give, and a step
  removes no name.
\<close>

definition log_agrees :: "Connection \<Rightarrow> bool" where
  "log_agrees c \<longleftrightarrow> (werr (mwriter c) = None \<longrightarrow> indexSent c = index_written (wlog (mwriter c)) None)"

definition names_kept :: "Connection \<Rightarrow> Connection \<Rightarrow> bool" where
  "names_kept c c' \<longleftrightarrow> (\<forall>m. indexSent c = Some m \<longrightarrow> (\<exists>m'. indexSent c' = Some m' \<and> dom m \<subseteq> dom m'))"


section \<open>Auxiliary lemmas\<close>

lemma and_fff: "(x::int) AND 0xfff = x mod 4096"
proof -
  have "x AND mask 12 = x mod 2 ^ 12"
    by (simp add: take_bit_eq_mod flip: take_bit_eq_mask)
  then show ?thesis by (simp add: mask_eq_exp_minus_1)
qed

lemma index_first_eq: "index_first fs m = m ++ map_of (rev (sent_pairs fs))"
  by (induction fs arbitrary: m) (auto simp: sent_pairs_def)

lemma index_diff_distinct:
  "distinct (map Name fs) \<Longrightarrow>
   index_diff fs diff m = (diff @ delta_spec m fs, m ++ map_of (sent_pairs (delta_spec m fs)))"
proof (induction fs arbitrary: diff m)
  case Nil
  then show ?case by (simp add: delta_spec_def sent_pairs_def)
next
  case (Cons f fs)
  then have d: "distinct (map Name fs)" and nf: "Name f \<notin> Name ` set fs" by auto
  have ne: "Name x \<noteq> Name f" if "x \<in> set fs" for x
    using nf that by (metis imageI)
  have same: "delta_spec (m(Name f \<mapsto> v)) fs = delta_spec m fs" for v
    unfolding delta_spec_def by (rule filter_cong) (simp_all add: ne)
  have nd: "Name f \<notin> dom (map_of (sent_pairs (delta_spec m fs)))"
    using nf by (auto simp: dom_map_of_conv_image_fst sent_pairs_def delta_spec_def image_iff)
  show ?case
  proof (cases "m (Name f) = Some (Modified f)")
    case True
    then show ?thesis using Cons.IH[OF d] by (simp add: delta_spec_def)
  next
    case False
    then have "index_diff (f # fs) diff m = index_diff fs (diff @ [f]) (m(Name f \<mapsto> Modified f))"
      by (simp split: option.splits)
    also have "\<dots> = ((diff @ [f]) @ delta_spec m fs,
                    m(Name f \<mapsto> Modified f) ++ map_of (sent_pairs (delta_spec m fs)))"
      by (simp only: Cons.IH[OF d] same)
    also have "m(Name f \<mapsto> Modified f) ++ map_of (sent_pairs (delta_spec m fs))
               = m ++ map_of (sent_pairs (delta_spec m (f # fs)))"
      using False nd by (simp add: delta_spec_def sent_pairs_def map_add_upd_left)
    finally show ?thesis using False by (simp add: delta_spec_def)
  qed
qed

lemmas writer_defs = writeHeader_def writeUint32_def writeIndex_def writeRequest_def
  writeResponse_def put_def flush_def

lemma Index_healthy:
  assumes "werr (mwriter c) = None" "header_ok env" "body_ok env" "flush_err env = None"
  shows "Index c idx env =
     Some (c\<lparr>indexSent := Some (case indexSent c of None \<Rightarrow> index_first idx Map.empty
                                   | Some m \<Rightarrow> snd (index_diff idx [] m)),
             mwriter := (mwriter c)\<lparr>wlog := wlog (mwriter c) @
                [WUint32 (encodeHeader \<lparr>version = 0, msgID = nextId c,
                     msgType = (case indexSent c of None \<Rightarrow> messageTypeIndex
                                | Some m \<Rightarrow> messageTypeIndexUpdate)\<rparr>),
                 WIndex (case indexSent c of None \<Rightarrow> idx
                         | Some m \<Rightarrow> fst (index_diff idx [] m))]\<rparr>,
             nextId := (nextId c + 1) AND 0xfff\<rparr>)"
  using assms
  by (cases "indexSent c")
     (simp_all add: Index_def Let_def writeHeader_def writeUint32_def writeIndex_def
        put_def flush_def split: prod.splits)

lemma index_first_distinct:
  assumes "distinct (map Name fs)"
  shows "dom (index_first fs Map.empty) = Name ` set fs"
    and "\<forall>f \<in> set fs. index_first fs Map.empty (Name f) = Some (Modified f)"
proof -
  have eq: "index_first fs Map.empty = map_of (rev (sent_pairs fs))"
    by (simp add: index_first_eq)
  show "dom (index_first fs Map.empty) = Name ` set fs"
    unfolding eq by (simp add: dom_map_of_conv_image_fst sent_pairs_def image_image)
  have dr: "distinct (map fst (rev (sent_pairs fs)))"
    using assms by (simp add: sent_pairs_def rev_map[symmetric] comp_def)
  show "\<forall>f \<in> set fs. index_first fs Map.empty (Name f) = Some (Modified f)"
  proof
    fix f assume "f \<in> set fs"
    then have "(Name f, Modified f) \<in> set (rev (sent_pairs fs))"
      by (auto simp: sent_pairs_def)
    with dr show "index_first fs Map.empty (Name f) = Some (Modified f)"
      unfolding eq by (rule map_of_is_SomeI)
  qed
qed

lemma delta_update_distinct:
  fixes m :: "string \<rightharpoonup> 64 word"
  assumes "distinct (map Name fs)"
  defines "m' \<equiv> m ++ map_of (sent_pairs (delta_spec m fs))"
  shows "\<forall>f \<in> set (delta_spec m fs). m' (Name f) = Some (Modified f)"
    and "\<forall>n. n \<notin> Name ` set (delta_spec m fs) \<longrightarrow> m' n = m n"
proof -
  have dd: "distinct (map fst (sent_pairs (delta_spec m fs)))"
    using assms(1) by (simp add: sent_pairs_def delta_spec_def comp_def distinct_map_filter)
  show "\<forall>f \<in> set (delta_spec m fs). m' (Name f) = Some (Modified f)"
  proof
    fix f assume "f \<in> set (delta_spec m fs)"
    then have "(Name f, Modified f) \<in> set (sent_pairs (delta_spec m fs))"
      by (auto simp: sent_pairs_def)
    with dd have "map_of (sent_pairs (delta_spec m fs)) (Name f) = Some (Modified f)"
      by (rule map_of_is_SomeI)
    then show "m' (Name f) = Some (Modified f)"
      by (simp add: m'_def map_add_Some_iff)
  qed
  show "\<forall>n. n \<notin> Name ` set (delta_spec m fs) \<longrightarrow> m' n = m n"
  proof (intro allI impI)
    fix n assume "n \<notin> Name ` set (delta_spec m fs)"
    then have "n \<notin> dom (map_of (sent_pairs (delta_spec m fs)))"
      by (simp add: dom_map_of_conv_image_fst sent_pairs_def image_image)
    then show "m' n = m n"
      by (simp add: m'_def map_add_dom_app_simps)
  qed
qed

lemma Index_nextId:
  "Index c idx env = Some c' \<Longrightarrow> nextId c' = (nextId c + 1) mod 4096"
  by (auto simp: Index_def Let_def close_def and_fff split: prod.splits if_splits option.splits)

lemma Ping_send_healthy:
  assumes "\<not> closed c" "awaiting c = Some aw" "werr (mwriter c) = None"
    "header_ok env" "flush_err env = None"
  shows "Ping_send c env =
     Some (Blocked (nextChan c),
           c\<lparr>chans := (chans c)(nextChan c := Open), nextChan := Suc (nextChan c),
              awaiting := Some (AList.update (nextId c) (nextChan c) aw),
              mwriter := (mwriter c)\<lparr>wlog := wlog (mwriter c) @
                [WUint32 (encodeHeader
                   \<lparr>version = 0, msgID = nextId c, msgType = messageTypePing\<rparr>)]\<rparr>,
              nextId := (nextId c + 1) AND 0xfff\<rparr>)"
  using assms by (simp add: Ping_send_def isClosed_def Let_def writer_defs)

lemma Request_send_healthy:
  assumes "\<not> closed c" "awaiting c = Some aw" "werr (mwriter c) = None"
    "header_ok env" "body_ok env" "flush_err env = None"
  shows "Request_send c name offset sz hash env =
     Some (Blocked (nextChan c),
           c\<lparr>chans := (chans c)(nextChan c := Open), nextChan := Suc (nextChan c),
              awaiting := Some (AList.update (nextId c) (nextChan c) aw),
              mwriter := (mwriter c)\<lparr>wlog := wlog (mwriter c) @
                [WUint32 (encodeHeader
                   \<lparr>version = 0, msgID = nextId c, msgType = messageTypeRequest\<rparr>),
                 WRequest \<lparr>rname = name, roffset = offset, rsize = sz, rhash = hash\<rparr>]\<rparr>,
              nextId := (nextId c + 1) AND 0xfff\<rparr>)"
  using assms by (simp add: Request_send_def isClosed_def Let_def writer_defs)

lemma close_chans_ok:
  "distinct chs \<Longrightarrow> list_all (\<lambda>ch. cs ch = Open) chs \<Longrightarrow>
   close_chans chs cs = Some (\<lambda>ch. if ch \<in> set chs then Closed else cs ch)"
proof (induction chs arbitrary: cs)
  case Nil
  then show ?case by simp
next
  case (Cons a chs)
  then have "list_all (\<lambda>ch. (cs(a := Closed)) ch = Open) chs"
    by (auto simp: list_all_iff)
  with Cons have "close_chans chs (cs(a := Closed)) =
      Some (\<lambda>ch. if ch \<in> set chs then Closed else (cs(a := Closed)) ch)"
    by simp
  with Cons.prems show ?case by (auto simp: fun_eq_iff)
qed

lemma close_closed: "closed c \<Longrightarrow> close c = Some c"
  by (simp add: close_def)

lemma close_open:
  assumes "\<not> closed c" "close c = Some c'"
  shows "\<exists>cs. c' = c\<lparr>closed := True, chans := cs, awaiting := None,
                      receiver := receiver c @ [CClose (ID c)]\<rparr>"
  using assms by (auto simp: close_def split: option.splits)

lemma close_wf:
  assumes "wf c"
  shows "close c = Some (if closed c then c else
            c\<lparr>closed := True,
              chans := (\<lambda>ch. if ch \<in> set (range_awaiting (awaiting c)) then Closed else chans c ch),
              awaiting := None, receiver := receiver c @ [CClose (ID c)]\<rparr>)"
proof (cases "closed c")
  case True
  then show ?thesis by (simp add: close_def)
next
  case False
  with assms obtain aw where aw: "awaiting c = Some aw" by (auto simp: wf_def table_ok_def)
  with assms have "distinct (map snd aw)" "list_all (\<lambda>ch. chans c ch = Open) (map snd aw)"
    by (auto simp: wf_def table_ok_def list_all_iff)
  then have "close_chans (map snd aw) (chans c) =
      Some (\<lambda>ch. if ch \<in> set (map snd aw) then Closed else chans c ch)"
    by (rule close_chans_ok)
  with False aw show ?thesis by (simp add: close_def range_awaiting_def)
qed


lemma run_close_closed: "closed c \<Longrightarrow> run c (replicate n OpClose) = Some c"
  by (induction n) (auto simp: step_def close_def)

lemma NewConnection_wf: "wf (NewConnection n t)"
  by (simp add: wf_def table_ok_def NewConnection_def)

lemmas reader_defs = readHeader_def readIndex_def readRequest_def readResponse_def get_def

lemma wf_field_update [simp]:
  "wf (c\<lparr>lastReceive := t\<rparr>) = wf c"
  by (simp add: wf_def table_ok_def split: option.splits)

lemma wf_open_reader: "wf c \<Longrightarrow> \<not> closed c \<Longrightarrow> rerr (mreader c) = None"
  by (auto simp: wf_def table_ok_def)

lemma readerLoop_closed: "closed c \<Longrightarrow> readerLoop c rest = Some (c, [])"
  by (cases rest) (auto simp: isClosed_def)

lemma lookup_delete_awaiting [simp]: "lookup_awaiting (delete_awaiting a i) i = None"
  by (cases a) (simp_all add: lookup_awaiting_def delete_awaiting_def delete_conv')

lemma fulfil_missing:
  "lookup_awaiting (awaiting c) i = None \<Longrightarrow> fulfil c i res = Some c"
  by (simp add: fulfil_def)

lemma fulfil_found:
  "lookup_awaiting (awaiting c) i = Some rc \<Longrightarrow> chans c rc = Open \<Longrightarrow>
   fulfil c i res = Some (c\<lparr>chans := (chans c)(rc := Sent res),
                            awaiting := delete_awaiting (awaiting c) i\<rparr>)"
  by (simp add: fulfil_def)

lemma wf_lookup_open:
  assumes "wf c" "lookup_awaiting (awaiting c) i = Some rc"
  shows "chans c rc = Open" "rc < nextChan c"
proof -
  from assms(2) obtain aw where aw: "awaiting c = Some aw" "map_of aw i = Some rc"
    by (auto simp: lookup_awaiting_def split: option.splits)
  then have "rc \<in> set (map snd aw)" by (force dest: map_of_SomeD)
  with assms(1) aw(1) show "chans c rc = Open" "rc < nextChan c"
    by (auto simp: wf_def table_ok_def list_all_iff)
qed

lemma wf_fulfil:
  assumes "wf c" "lookup_awaiting (awaiting c) i = Some rc"
  shows "wf (c\<lparr>chans := (chans c)(rc := Sent res),
               awaiting := delete_awaiting (awaiting c) i\<rparr>)"
proof -
  from assms(2) obtain aw where aw: "awaiting c = Some aw" "map_of aw i = Some rc"
    by (auto simp: lookup_awaiting_def split: option.splits)
  have mem: "(i, rc) \<in> set aw" using aw(2) by (rule map_of_SomeD)
  have d1: "distinct (map fst aw)" and d2: "distinct (map snd aw)"
    and op: "\<forall>ch \<in> snd ` set aw. ch < nextChan c \<and> chans c ch = Open"
    using assms(1) aw(1) by (auto simp: wf_def table_ok_def list_all_iff)
  have del: "AList.delete i aw = filter (\<lambda>p. fst p \<noteq> i) aw"
    by (induction aw) auto
  have ne: "snd p \<noteq> rc" if "p \<in> set aw" "fst p \<noteq> i" for p
  proof
    assume "snd p = rc"
    with d2 mem that(1) have "p = (i, rc)"
      by (metis distinct_map inj_onD snd_conv)
    with that(2) show False by simp
  qed
  have "distinct (map fst (AList.delete i aw))" using d1 by (rule distinct_delete)
  moreover have "distinct (map snd (AList.delete i aw))"
    unfolding del using d2 by (rule distinct_map_filter)
  moreover have "list_all (\<lambda>ch. ch < nextChan c \<and> ((chans c)(rc := Sent res)) ch = Open)
                   (map snd (AList.delete i aw))"
    unfolding del using op ne by (auto simp: list_all_iff)
  ultimately show ?thesis
    using assms(1) aw(1) by (auto simp: wf_def table_ok_def delete_awaiting_def)
qed

lemma reply_body:
  assumes "wf c" "\<not> closed c" "in_header inb = Some u" "version (decodeHeader u) = 0"
  shows "msgType (decodeHeader u) = messageTypeResponse \<Longrightarrow> in_response inb = Some data \<Longrightarrow>
         readerLoop_body c now inb env =
           map_option (\<lambda>c'. (c', None))
             (fulfil (c\<lparr>lastReceive := now\<rparr>) (msgID (decodeHeader u)) \<lparr>val = data, err = None\<rparr>)"
    and "msgType (decodeHeader u) = messageTypePong \<Longrightarrow>
         readerLoop_body c now inb env =
           map_option (\<lambda>c'. (c', None))
             (fulfil (c\<lparr>lastReceive := now\<rparr>) (msgID (decodeHeader u)) \<lparr>val = [], err = None\<rparr>)"
proof -
  have r: "rerr (mreader c) = None" using assms(1,2) by (rule wf_open_reader)
  have rh: "readHeader (mreader c) (in_header inb) = (mreader c, decodeHeader u)"
    using r assms(3) by (simp add: reader_defs)
  show "msgType (decodeHeader u) = messageTypeResponse \<Longrightarrow> in_response inb = Some data \<Longrightarrow>
         readerLoop_body c now inb env =
           map_option (\<lambda>c'. (c', None))
             (fulfil (c\<lparr>lastReceive := now\<rparr>) (msgID (decodeHeader u)) \<lparr>val = data, err = None\<rparr>)"
    using r rh assms(4)
    by (simp add: readerLoop_body_def Let_def readResponse_def get_def
        messageTypeResponse_def messageTypeIndex_def messageTypeIndexUpdate_def
        messageTypeRequest_def)
  show "msgType (decodeHeader u) = messageTypePong \<Longrightarrow>
         readerLoop_body c now inb env =
           map_option (\<lambda>c'. (c', None))
             (fulfil (c\<lparr>lastReceive := now\<rparr>) (msgID (decodeHeader u)) \<lparr>val = [], err = None\<rparr>)"
    using r rh assms(4)
    by (simp add: readerLoop_body_def Let_def
        messageTypeResponse_def messageTypeIndex_def messageTypeIndexUpdate_def
        messageTypeRequest_def messageTypePing_def messageTypePong_def)
qed

lemma respond_healthy:
  assumes "werr (mwriter c) = None" "header_ok env" "body_ok env" "flush_err env = None"
  shows "respond c i req (data, e) env =
     Some (c\<lparr>receiver := receiver c @
               [CRequest (ID c) (rname req) (roffset req) (rsize req) (rhash req)],
             mwriter := (mwriter c)\<lparr>wlog := wlog (mwriter c) @
               [WUint32 (encodeHeader
                   \<lparr>version = 0, msgID = i, msgType = messageTypeResponse\<rparr>),
                WResponse data]\<rparr>\<rparr>)"
  using assms by (simp add: respond_def Let_def writer_defs)

lemma table_ok_updates [simp]:
  "table_ok (c\<lparr>mwriter := w\<rparr>) = table_ok c"
  "table_ok (c\<lparr>mreader := r\<rparr>) = table_ok c"
  "table_ok (c\<lparr>indexSent := s\<rparr>) = table_ok c"
  "table_ok (c\<lparr>nextId := i\<rparr>) = table_ok c"
  "table_ok (c\<lparr>lastReceive := t\<rparr>) = table_ok c"
  "table_ok (c\<lparr>receiver := l\<rparr>) = table_ok c"
  "table_ok (c\<lparr>peerLatency := d\<rparr>) = table_ok c"
  by (simp_all add: table_ok_def split: option.splits)

lemma close_table_ok:
  assumes "table_ok c"
  shows "close c = Some (if closed c then c else
            c\<lparr>closed := True,
              chans := (\<lambda>ch. if ch \<in> set (range_awaiting (awaiting c)) then Closed else chans c ch),
              awaiting := None, receiver := receiver c @ [CClose (ID c)]\<rparr>)"
proof (cases "closed c")
  case True
  then show ?thesis by (simp add: close_def)
next
  case False
  with assms obtain aw where aw: "awaiting c = Some aw" by (auto simp: table_ok_def)
  with assms have "distinct (map snd aw)" "list_all (\<lambda>ch. chans c ch = Open) (map snd aw)"
    by (auto simp: table_ok_def list_all_iff)
  then have "close_chans (map snd aw) (chans c) =
      Some (\<lambda>ch. if ch \<in> set (map snd aw) then Closed else chans c ch)"
    by (rule close_chans_ok)
  with False aw show ?thesis by (simp add: close_def range_awaiting_def)
qed

lemma close_fields:
  assumes "close c = Some c'"
  shows "nextId c' = nextId c" "indexSent c' = indexSent c" "mwriter c' = mwriter c"
    "mreader c' = mreader c" "nextChan c' = nextChan c" "closed c'" "ID c' = ID c"
  using assms by (auto simp: close_def split: if_splits option.splits)

lemma close_total:
  assumes "table_ok c" "0 \<le> nextId c" "nextId c \<le> 0xfff"
  shows "\<exists>c'. close c = Some c' \<and> wf c'"
proof (cases "closed c")
  case True
  then show ?thesis using assms by (simp add: close_def wf_def)
next
  case False
  then show ?thesis
    using assms by (simp add: close_table_ok[OF assms(1)] wf_def table_ok_def)
qed

lemma update_snd_set: "set (map snd (AList.update k v aw)) \<subseteq> insert v (snd ` set aw)"
  by (induction aw) auto

lemma update_snd_distinct:
  "distinct (map snd aw) \<Longrightarrow> v \<notin> snd ` set aw \<Longrightarrow> distinct (map snd (AList.update k v aw))"
proof (induction aw)
  case Nil
  then show ?case by simp
next
  case (Cons p aw)
  then show ?case
    using update_snd_set[of k v aw] by (cases p) (auto simp: image_iff)
qed

lemma register_table_ok:
  assumes "table_ok c" "awaiting c = Some aw"
  shows "table_ok (c\<lparr>chans := (chans c)(nextChan c := Open), nextChan := Suc (nextChan c),
                     awaiting := Some (AList.update k (nextChan c) aw)\<rparr>)"
proof -
  have d1: "distinct (map fst aw)" and d2: "distinct (map snd aw)"
    and op: "\<forall>ch \<in> snd ` set aw. ch < nextChan c \<and> chans c ch = Open"
    and o: "\<not> closed c"
    using assms by (auto simp: table_ok_def list_all_iff)
  have fresh: "nextChan c \<notin> snd ` set aw" using op by auto
  have "distinct (map fst (AList.update k (nextChan c) aw))" using d1 by (rule distinct_update)
  moreover have "distinct (map snd (AList.update k (nextChan c) aw))"
    using d2 fresh by (rule update_snd_distinct)
  moreover have "list_all (\<lambda>ch. ch < Suc (nextChan c) \<and> ((chans c)(nextChan c := Open)) ch = Open)
                   (map snd (AList.update k (nextChan c) aw))"
    unfolding list_all_iff
  proof
    fix ch assume "ch \<in> set (map snd (AList.update k (nextChan c) aw))"
    then have "ch = nextChan c \<or> ch \<in> snd ` set aw"
      using update_snd_set[of k "nextChan c" aw] by auto
    then show "ch < Suc (nextChan c) \<and> ((chans c)(nextChan c := Open)) ch = Open"
      using op by auto
  qed
  ultimately show ?thesis using o by (simp add: table_ok_def)
qed

lemma wfI:
  "table_ok c \<Longrightarrow> 0 \<le> nextId c \<Longrightarrow> nextId c \<le> 0xfff \<Longrightarrow> werr (mwriter c) = None \<or> closed c \<Longrightarrow>
   rerr (mreader c) = None \<or> closed c \<Longrightarrow> wf c"
  by (auto simp: wf_def)

lemma wfD:
  assumes "wf c"
  shows "table_ok c" "0 \<le> nextId c" "nextId c \<le> 0xfff"
    "werr (mwriter c) = None \<or> closed c" "rerr (mreader c) = None \<or> closed c"
  using assms by (auto simp: wf_def)

lemma and_fff_range: "0 \<le> (x::int) AND 0xfff" "(x::int) AND 0xfff \<le> 0xfff"
  by (simp_all add: and_fff)

lemma Index_wf:
  assumes "wf c"
  shows "\<exists>c'. Index c idx env = Some c' \<and> wf c'"
proof -
  obtain t d s where sel: "(case indexSent c of
               None \<Rightarrow> (messageTypeIndex, idx, index_first idx Map.empty)
             | Some m \<Rightarrow>
                 (case index_diff idx [] m of
                    (diff, m') \<Rightarrow> (messageTypeIndexUpdate, diff, m'))) = (t, d, s)"
    by (metis prod_cases3)
  let ?w = "writeIndex (writeHeader (mwriter c) (header_ok env)
                 \<lparr>version = 0, msgID = nextId c, msgType = t\<rparr>) (body_ok env) d"
  let ?c' = "c\<lparr>indexSent := Some s, mwriter := ?w, nextId := (nextId c + 1) AND 0xfff\<rparr>"
  have I: "Index c idx env =
      (if flush env \<noteq> None \<or> werr ?w \<noteq> None then close ?c' else Some ?c')"
    by (simp add: Index_def sel Let_def)
  have t: "table_ok ?c'" using wfD(1)[OF assms] by simp
  show ?thesis
  proof (cases "flush env \<noteq> None \<or> werr ?w \<noteq> None")
    case True
    then show ?thesis
      using close_total[OF t] by (simp add: I and_fff_range del: One_nat_def)
  next
    case False
    have "wf ?c'"
      using t False wfD(5)[OF assms] by (intro wfI) (simp_all add: and_fff_range)
    with False show ?thesis by (simp add: I)
  qed
qed

lemma index_written_append:
  "index_written (xs @ ys) acc = index_written ys (index_written xs acc)"
  by (induction xs acc rule: index_written.induct) simp_all

lemma quiet_same: "indexSent c1 = indexSent c \<Longrightarrow> mwriter c1 = mwriter c \<Longrightarrow> quiet c c1"
  by (simp add: quiet_def)

lemma quiet_put:
  assumes "indexSent c1 = indexSent c" "mwriter c1 = put (mwriter c) ok x" "\<And>fs. x \<noteq> WIndex fs"
  shows "quiet c c1"
  using assms by (cases x) (auto simp: quiet_def put_def index_written_append split: if_splits)

lemma quiet_put2:
  assumes "indexSent c1 = indexSent c" "mwriter c1 = put (put (mwriter c) ok x) ok' y"
    "\<And>fs. x \<noteq> WIndex fs" "\<And>fs. y \<noteq> WIndex fs"
  shows "quiet c c1"
  using assms
  by (cases x; cases y) (auto simp: quiet_def put_def index_written_append split: if_splits)

lemma close_quiet: "close c1 = Some c' \<Longrightarrow> quiet c c1 \<Longrightarrow> quiet c c'"
  by (simp add: quiet_def close_fields)

lemma quiet_nextId [simp]: "quiet c (c1\<lparr>nextId := i\<rparr>) = quiet c c1"
  by (simp add: quiet_def)

lemma Ping_send_wf:
  assumes "wf c"
  shows "\<exists>r c'. Ping_send c env = Some (r, c') \<and> wf c' \<and> quiet c c'"
proof (cases "closed c")
  case True
  then show ?thesis using assms by (simp add: Ping_send_def isClosed_def quiet_same)
next
  case False
  then obtain aw where aw: "awaiting c = Some aw"
    using wfD(1)[OF assms] by (auto simp: table_ok_def)
  let ?c1 = "c\<lparr>chans := (chans c)(nextChan c := Open), nextChan := Suc (nextChan c),
                 awaiting := Some (AList.update (nextId c) (nextChan c) aw)\<rparr>"
  let ?w = "writeHeader (mwriter c) (header_ok env)
              \<lparr>version = 0, msgID = nextId c, msgType = messageTypePing\<rparr>"
  let ?c2 = "?c1\<lparr>mwriter := ?w\<rparr>"
  have P: "Ping_send c env =
      (if flush env \<noteq> None \<or> werr ?w \<noteq> None
       then map_option (\<lambda>c'. (Returned (0, False), c')) (close ?c2)
       else Some (Blocked (nextChan c), ?c2\<lparr>nextId := (nextId c + 1) AND 0xfff\<rparr>))"
    using False aw by (simp add: Ping_send_def isClosed_def Let_def)
  have t: "table_ok ?c2" using register_table_ok[OF wfD(1)[OF assms] aw] by simp
  have q: "quiet c ?c2"
    by (rule quiet_put[where ok = "header_ok env"
          and x = "WUint32 (encodeHeader \<lparr>version = 0, msgID = nextId c, msgType = messageTypePing\<rparr>)"])
       (simp_all add: writeHeader_def writeUint32_def)
  show ?thesis
  proof (cases "flush env \<noteq> None \<or> werr ?w \<noteq> None")
    case True
    from close_total[OF t] wfD(2,3)[OF assms]
    obtain c' where "close ?c2 = Some c'" "wf c'" by auto
    with True close_quiet[OF _ q] show ?thesis by (simp add: P)
  next
    case f: False
    have "wf (?c2\<lparr>nextId := (nextId c + 1) AND 0xfff\<rparr>)"
      using t f wfD(5)[OF assms] False by (intro wfI) (simp_all add: and_fff_range)
    with f q show ?thesis by (simp add: P)
  qed
qed

lemma Request_send_wf:
  assumes "wf c"
  shows "\<exists>r c'. Request_send c name offset sz hash env = Some (r, c') \<and> wf c' \<and> quiet c c'"
proof (cases "closed c")
  case True
  then show ?thesis using assms by (simp add: Request_send_def isClosed_def quiet_same)
next
  case False
  then obtain aw where aw: "awaiting c = Some aw"
    using wfD(1)[OF assms] by (auto simp: table_ok_def)
  let ?c1 = "c\<lparr>chans := (chans c)(nextChan c := Open), nextChan := Suc (nextChan c),
                 awaiting := Some (AList.update (nextId c) (nextChan c) aw)\<rparr>"
  let ?w = "writeRequest (writeHeader (mwriter c) (header_ok env)
              \<lparr>version = 0, msgID = nextId c, msgType = messageTypeRequest\<rparr>) (body_ok env)
              \<lparr>rname = name, roffset = offset, rsize = sz, rhash = hash\<rparr>"
  let ?c2 = "?c1\<lparr>mwriter := ?w\<rparr>"
  have R: "Request_send c name offset sz hash env =
      (if werr ?w \<noteq> None
       then map_option (\<lambda>c'. (Returned ([], werr ?w), c')) (close ?c2)
       else case flush env of
          Some e \<Rightarrow> map_option (\<lambda>c'. (Returned ([], Some e), c')) (close ?c2)
        | None \<Rightarrow> Some (Blocked (nextChan c), ?c2\<lparr>nextId := (nextId c + 1) AND 0xfff\<rparr>))"
    using False aw by (simp add: Request_send_def isClosed_def Let_def split: option.splits)
  have t: "table_ok ?c2" using register_table_ok[OF wfD(1)[OF assms] aw] by simp
  have q: "quiet c ?c2"
    by (rule quiet_put2[where ok = "header_ok env" and ok' = "body_ok env"
          and x = "WUint32 (encodeHeader \<lparr>version = 0, msgID = nextId c, msgType = messageTypeRequest\<rparr>)"
          and y = "WRequest \<lparr>rname = name, roffset = offset, rsize = sz, rhash = hash\<rparr>"])
       (simp_all add: writeHeader_def writeUint32_def writeRequest_def)
  from close_total[OF t] wfD(2,3)[OF assms]
  obtain c' where c': "close ?c2 = Some c'" "wf c'" by auto
  note q' = close_quiet[OF c'(1) q]
  show ?thesis
  proof (cases "werr ?w \<noteq> None \<or> flush env \<noteq> None")
    case True
    with c' q' show ?thesis by (auto simp: R)
  next
    case f: False
    have "wf (?c2\<lparr>nextId := (nextId c + 1) AND 0xfff\<rparr>)"
      using t f wfD(5)[OF assms] False by (intro wfI) (simp_all add: and_fff_range)
    with f q show ?thesis by (simp add: R)
  qed
qed

lemma respond_wf:
  assumes "wf c"
  shows "\<exists>c'. respond c i req answer env = Some c' \<and> wf c' \<and> quiet c c'"
proof -
  obtain data e where a: "answer = (data, e)" by (cases answer)
  let ?w = "writeResponse (writeUint32 (mwriter c) (header_ok env)
              (encodeHeader \<lparr>version = 0, msgID = i, msgType = messageTypeResponse\<rparr>))
              (body_ok env) data"
  let ?c2 = "c\<lparr>receiver := receiver c @
                 [CRequest (ID c) (rname req) (roffset req) (rsize req) (rhash req)],
               mwriter := ?w\<rparr>"
  have R: "respond c i req answer env =
      (if werr ?w \<noteq> None \<or> flush env \<noteq> None then close ?c2 else Some ?c2)"
    by (simp add: respond_def a Let_def)
  have t: "table_ok ?c2" using wfD(1)[OF assms] by simp
  have q: "quiet c ?c2"
    by (rule quiet_put2[where ok = "header_ok env" and ok' = "body_ok env"
          and x = "WUint32 (encodeHeader \<lparr>version = 0, msgID = i, msgType = messageTypeResponse\<rparr>)"
          and y = "WResponse data"])
       (simp_all add: writeUint32_def writeResponse_def)
  show ?thesis
  proof (cases "werr ?w \<noteq> None \<or> flush env \<noteq> None")
    case True
    from close_total[OF t] wfD(2,3)[OF assms]
    obtain c' where c': "close ?c2 = Some c'" "wf c'" by auto
    with True close_quiet[OF c'(1) q] show ?thesis by (simp add: R)
  next
    case False
    have "wf ?c2" using t False wfD(2,3,5)[OF assms] by (intro wfI) simp_all
    with False q show ?thesis by (simp add: R)
  qed
qed

lemma fulfil_wf:
  assumes "wf c"
  shows "\<exists>c'. fulfil c i res = Some c' \<and> wf c' \<and> indexSent c' = indexSent c \<and>
           mwriter c' = mwriter c"
proof (cases "lookup_awaiting (awaiting c) i")
  case None
  then show ?thesis using assms by (simp add: fulfil_missing)
next
  case (Some rc)
  have "chans c rc = Open" using wf_lookup_open(1)[OF assms Some] .
  then show ?thesis
    using wf_fulfil[OF assms Some, of res] Some by (simp add: fulfil_found)
qed

lemma closing_wf:
  assumes "table_ok c1" "0 \<le> nextId c1" "nextId c1 \<le> 0xfff" "quiet c c1"
  shows "\<exists>c'. map_option (\<lambda>c'. (c', t)) (close c1) = Some (c', t) \<and> wf c' \<and> quiet c c'"
  using close_total[OF assms(1-3)] close_quiet[OF _ assms(4)] by auto

lemma readerLoop_body_wf:
  assumes "wf c" "\<not> closed c"
  shows "\<exists>c' t. readerLoop_body c now inb env = Some (c', t) \<and> wf c' \<and> quiet c c'"
proof -
  note T = wfD(1)[OF assms(1)] and N = wfD(2,3)[OF assms(1)]
  have W: "werr (mwriter c) = None" and R: "rerr (mreader c) = None"
    using wfD(4,5)[OF assms(1)] assms(2) by auto
  obtain r hdr where rh: "readHeader (mreader c) (in_header inb) = (r, hdr)"
    by (cases "readHeader (mreader c) (in_header inb)")
  let ?c1 = "c\<lparr>mreader := r\<rparr>"
  have t1: "table_ok ?c1" "0 \<le> nextId ?c1" "nextId ?c1 \<le> 0xfff" "quiet c ?c1"
    using T N by (simp_all add: quiet_same)
  show ?thesis
  proof (cases "rerr r \<noteq> None \<or> version hdr \<noteq> 0")
    case True
    then have "readerLoop_body c now inb env = map_option (\<lambda>c'. (c', None)) (close ?c1)"
      by (cases "rerr r = None") (simp_all add: readerLoop_body_def rh Let_def)
    then show ?thesis using closing_wf[OF t1, of None] by auto
  next
    case False
    then have r0: "rerr r = None" and v0: "version hdr = 0" by auto
    let ?c2 = "?c1\<lparr>lastReceive := now\<rparr>"
    have t2: "table_ok ?c2" "0 \<le> nextId ?c2" "nextId ?c2 \<le> 0xfff" "quiet c ?c2"
      using T N by (simp_all add: quiet_same)
    have w2: "wf ?c2" using t2 W r0 by (intro wfI) simp_all
    have n2: "\<not> closed ?c2" using assms(2) by simp
    consider (idx) "msgType hdr = messageTypeIndex"
      | (upd) "msgType hdr = messageTypeIndexUpdate"
      | (req) "msgType hdr = messageTypeRequest"
      | (rsp) "msgType hdr = messageTypeResponse"
      | (ping) "msgType hdr = messageTypePing"
      | (pong) "msgType hdr = messageTypePong"
      | (other) "msgType hdr \<notin> {messageTypeIndex, messageTypeIndexUpdate, messageTypeRequest,
                   messageTypeResponse, messageTypePing, messageTypePong}"
      by auto
    then show ?thesis
    proof cases
      case idx
      obtain r' files where ri: "readIndex r (in_index inb) = (r', files)"
        by (cases "readIndex r (in_index inb)")
      let ?c3 = "?c2\<lparr>mreader := r'\<rparr>"
      have b: "readerLoop_body c now inb env =
          (if rerr r' \<noteq> None then map_option (\<lambda>c'. (c', None)) (close ?c3)
           else Some (?c3\<lparr>receiver := receiver c @ [CIndex (ID c) files]\<rparr>, None))"
        using r0 v0 idx by (simp add: readerLoop_body_def rh ri Let_def)
      have t3: "table_ok ?c3" "0 \<le> nextId ?c3" "nextId ?c3 \<le> 0xfff" using T N by simp_all
      have q3: "quiet c ?c3" by (simp add: quiet_same)
      show ?thesis
      proof (cases "rerr r' \<noteq> None")
        case True
        then show ?thesis using closing_wf[OF t3 q3, of None] by (auto simp: b)
      next
        case False
        then have "wf (?c3\<lparr>receiver := receiver c @ [CIndex (ID c) files]\<rparr>)"
          using T N W by (intro wfI) simp_all
        with False show ?thesis by (simp add: b quiet_same)
      qed
    next
      case upd
      obtain r' files where ri: "readIndex r (in_index inb) = (r', files)"
        by (cases "readIndex r (in_index inb)")
      let ?c3 = "?c2\<lparr>mreader := r'\<rparr>"
      have b: "readerLoop_body c now inb env =
          (if rerr r' \<noteq> None then map_option (\<lambda>c'. (c', None)) (close ?c3)
           else Some (?c3\<lparr>receiver := receiver c @ [CIndexUpdate (ID c) files]\<rparr>, None))"
        using r0 v0 upd
        by (simp add: readerLoop_body_def rh ri Let_def messageTypeIndex_def
            messageTypeIndexUpdate_def)
      have t3: "table_ok ?c3" "0 \<le> nextId ?c3" "nextId ?c3 \<le> 0xfff" using T N by simp_all
      have q3: "quiet c ?c3" by (simp add: quiet_same)
      show ?thesis
      proof (cases "rerr r' \<noteq> None")
        case True
        then show ?thesis using closing_wf[OF t3 q3, of None] by (auto simp: b)
      next
        case False
        then have "wf (?c3\<lparr>receiver := receiver c @ [CIndexUpdate (ID c) files]\<rparr>)"
          using T N W by (intro wfI) simp_all
        with False show ?thesis by (simp add: b quiet_same)
      qed
    next
      case req
      obtain r' rq where rr: "readRequest r (in_request inb) = (r', rq)"
        by (cases "readRequest r (in_request inb)")
      let ?c3 = "?c2\<lparr>mreader := r'\<rparr>"
      have t3: "table_ok ?c3" "0 \<le> nextId ?c3" "nextId ?c3 \<le> 0xfff" using T N by simp_all
      have q3: "quiet c ?c3" by (simp add: quiet_same)
      from close_total[OF t3] obtain c4 where c4: "close ?c3 = Some c4" "wf c4" by auto
      have cl4: "closed c4" using close_fields(6)[OF c4(1)] .
      have p: "processRequest ?c2 (msgID hdr) (in_request inb) =
          (if rerr r' \<noteq> None then Some (c4, None) else Some (?c3, Some (msgID hdr, rq)))"
        using c4 by (simp add: processRequest_def rr Let_def)
      have b: "readerLoop_body c now inb env =
          (case processRequest ?c2 (msgID hdr) (in_request inb) of
             None \<Rightarrow> None
           | Some (c3, task) \<Rightarrow>
               if rerr (mreader c3) \<noteq> None \<or> werr (mwriter c3) \<noteq> None
               then map_option (\<lambda>c'. (c', task)) (close c3)
               else Some (c3, task))"
        using r0 v0 req
        by (simp add: readerLoop_body_def rh Let_def messageTypeIndex_def
            messageTypeIndexUpdate_def messageTypeRequest_def)
      show ?thesis
      proof (cases "rerr r' \<noteq> None")
        case True
        have "close c4 = Some c4" using cl4 by (simp add: close_def)
        then show ?thesis using True c4(2) close_quiet[OF c4(1) q3] by (auto simp: b p)
      next
        case False
        then have "wf ?c3" using T N W by (intro wfI) simp_all
        with False W q3 show ?thesis by (simp add: b p)
      qed
    next
      case rsp
      obtain r' data where rr: "readResponse r (in_response inb) = (r', data)"
        by (cases "readResponse r (in_response inb)")
      let ?c3 = "?c2\<lparr>mreader := r'\<rparr>"
      have t3: "table_ok ?c3" "0 \<le> nextId ?c3" "nextId ?c3 \<le> 0xfff" using T N by simp_all
      have q3: "quiet c ?c3" by (simp add: quiet_same)
      have b: "readerLoop_body c now inb env =
          (if rerr r' \<noteq> None then map_option (\<lambda>c'. (c', None)) (close ?c3)
           else map_option (\<lambda>c'. (c', None))
                  (fulfil ?c3 (msgID hdr) \<lparr>val = data, err = rerr r'\<rparr>))"
        using r0 v0 rsp
        by (simp add: readerLoop_body_def rh rr Let_def messageTypeIndex_def
            messageTypeIndexUpdate_def messageTypeRequest_def messageTypeResponse_def)
      show ?thesis
      proof (cases "rerr r' \<noteq> None")
        case True
        then show ?thesis using closing_wf[OF t3 q3, of None] by (auto simp: b)
      next
        case False
        then have w3: "wf ?c3" using T N W by (intro wfI) simp_all
        from fulfil_wf[OF w3, of "msgID hdr" "\<lparr>val = data, err = rerr r'\<rparr>"]
        obtain c' where "fulfil ?c3 (msgID hdr) \<lparr>val = data, err = rerr r'\<rparr> = Some c'"
          "wf c'" "indexSent c' = indexSent c" "mwriter c' = mwriter c"
          by auto
        with False show ?thesis by (auto simp: b quiet_same)
      qed
    next
      case ping
      let ?w = "writeUint32 (mwriter c) (header_ok env)
                  (encodeHeader \<lparr>version = 0, msgID = msgID hdr, msgType = messageTypePong\<rparr>)"
      let ?c3 = "?c2\<lparr>mwriter := ?w\<rparr>"
      have t3: "table_ok ?c3" "0 \<le> nextId ?c3" "nextId ?c3 \<le> 0xfff" using T N by simp_all
      have q3: "quiet c ?c3"
        by (rule quiet_put[where ok = "header_ok env"
              and x = "WUint32 (encodeHeader
                         \<lparr>version = 0, msgID = msgID hdr, msgType = messageTypePong\<rparr>)"])
           (simp_all add: writeUint32_def)
      have b: "readerLoop_body c now inb env =
          (if flush env \<noteq> None \<or> werr ?w \<noteq> None
           then map_option (\<lambda>c'. (c', None)) (close ?c3) else Some (?c3, None))"
        using r0 v0 ping
        by (simp add: readerLoop_body_def rh Let_def messageTypeIndex_def
            messageTypeIndexUpdate_def messageTypeRequest_def messageTypeResponse_def
            messageTypePing_def)
      show ?thesis
      proof (cases "flush env \<noteq> None \<or> werr ?w \<noteq> None")
        case True
        then show ?thesis using closing_wf[OF t3 q3, of None] by (auto simp: b)
      next
        case False
        then have "wf ?c3" using T N r0 by (intro wfI) simp_all
        with False q3 show ?thesis by (simp add: b)
      qed
    next
      case pong
      have b: "readerLoop_body c now inb env =
          map_option (\<lambda>c'. (c', None)) (fulfil ?c2 (msgID hdr) \<lparr>val = [], err = None\<rparr>)"
        using r0 v0 pong
        by (simp add: readerLoop_body_def rh Let_def messageTypeIndex_def
            messageTypeIndexUpdate_def messageTypeRequest_def messageTypeResponse_def
            messageTypePing_def messageTypePong_def)
      from fulfil_wf[OF w2, of "msgID hdr" "\<lparr>val = [], err = None\<rparr>"]
      obtain c' where "fulfil ?c2 (msgID hdr) \<lparr>val = [], err = None\<rparr> = Some c'"
        "wf c'" "indexSent c' = indexSent c" "mwriter c' = mwriter c"
        by auto
      then show ?thesis by (auto simp: b quiet_same)
    next
      case other
      then have b: "readerLoop_body c now inb env = map_option (\<lambda>c'. (c', None)) (close ?c2)"
        using r0 v0 by (simp add: readerLoop_body_def rh Let_def)
      show ?thesis using closing_wf[OF t2, of None] by (auto simp: b)
    qed
  qed
qed

lemma index_diff_acc:
  "index_diff fs diff m = (diff @ fst (index_diff fs [] m), snd (index_diff fs [] m))"
proof (induction fs arbitrary: diff m)
  case Nil
  then show ?case by simp
next
  case (Cons f fs)
  note IH = Cons.IH
  show ?case
  proof (cases "m (Name f) = Some (Modified f)")
    case True
    then show ?thesis using IH[of diff m] by simp
  next
    case False
    define m2 where "m2 = m(Name f \<mapsto> Modified f)"
    obtain d m' where r: "index_diff fs [] m2 = (d, m')" by (cases "index_diff fs [] m2")
    have e: "index_diff (f # fs) acc m = index_diff fs (acc @ [f]) m2" for acc
      using False by (simp add: m2_def split: option.splits)
    have a: "index_diff fs (diff @ [f]) m2 = ((diff @ [f]) @ d, m')"
      using IH[of "diff @ [f]" m2] r by simp
    have b: "index_diff fs [f] m2 = ([f] @ d, m')"
      using IH[of "[f]" m2] r by simp
    show ?thesis
      using a b e[of diff] e[of "[]"] by simp
  qed
qed

lemma index_diff_first:
  "index_diff fs [] m = (d, m') \<Longrightarrow> m' = index_first d m"
proof (induction fs arbitrary: m d m')
  case Nil
  then show ?case by simp
next
  case (Cons f fs)
  show ?case
  proof (cases "m (Name f) = Some (Modified f)")
    case True
    then have "index_diff fs [] m = (d, m')" using Cons.prems by simp
    then show ?thesis by (rule Cons.IH)
  next
    case False
    define m2 where "m2 = m(Name f \<mapsto> Modified f)"
    obtain d2 m3 where r: "index_diff fs [] m2 = (d2, m3)" by (cases "index_diff fs [] m2")
    have "index_diff (f # fs) [] m = index_diff fs [f] m2"
      using False by (simp add: m2_def split: option.splits)
    also have "\<dots> = ([f] @ d2, m3)"
      using index_diff_acc[of fs "[f]" m2] r by simp
    finally have "d = f # d2" "m' = m3" using Cons.prems by simp_all
    moreover have "m3 = index_first d2 m2" using r by (rule Cons.IH)
    ultimately show ?thesis by (simp add: m2_def)
  qed
qed

lemma index_first_dom: "dom m \<subseteq> dom (index_first fs m)"
  by (simp add: index_first_eq)

lemma put_None:
  "werr (put w ok x) = None \<Longrightarrow> werr w = None \<and> wlog (put w ok x) = wlog w @ [x]"
  by (auto simp: put_def split: if_splits)

lemma Index_effect:
  assumes "Index c idx env = Some c'"
  shows "\<exists>d. indexSent c' =
               Some (index_first d (case indexSent c of None \<Rightarrow> Map.empty | Some m \<Rightarrow> m)) \<and>
             (werr (mwriter c') = None \<longrightarrow>
                werr (mwriter c) = None \<and>
                (\<exists>h. wlog (mwriter c') = wlog (mwriter c) @ [WUint32 h, WIndex d]))"
proof -
  obtain t d s where sel: "(case indexSent c of
               None \<Rightarrow> (messageTypeIndex, idx, index_first idx Map.empty)
             | Some m \<Rightarrow>
                 (case index_diff idx [] m of
                    (diff, m') \<Rightarrow> (messageTypeIndexUpdate, diff, m'))) = (t, d, s)"
    by (metis prod_cases3)
  have s: "s = index_first d (case indexSent c of None \<Rightarrow> Map.empty | Some m \<Rightarrow> m)"
  proof (cases "indexSent c")
    case None
    then show ?thesis using sel by auto
  next
    case (Some m)
    then have "index_diff idx [] m = (d, s)" using sel by (simp split: prod.splits)
    then show ?thesis using Some by (simp add: index_diff_first)
  qed
  let ?h = "encodeHeader \<lparr>version = 0, msgID = nextId c, msgType = t\<rparr>"
  let ?w = "put (put (mwriter c) (header_ok env) (WUint32 ?h)) (body_ok env) (WIndex d)"
  let ?c' = "c\<lparr>indexSent := Some s, mwriter := ?w, nextId := (nextId c + 1) AND 0xfff\<rparr>"
  have I: "Index c idx env =
      (if flush env \<noteq> None \<or> werr ?w \<noteq> None then close ?c' else Some ?c')"
    by (simp add: Index_def sel Let_def writeHeader_def writeUint32_def writeIndex_def)
  have f: "indexSent c' = Some s" "mwriter c' = ?w"
    using assms I by (auto simp: close_fields split: if_splits)
  have "werr ?w = None \<Longrightarrow> werr (mwriter c) = None \<and>
          wlog ?w = wlog (mwriter c) @ [WUint32 ?h, WIndex d]"
    by (auto dest!: put_None)
  then show ?thesis using f s by auto
qed

lemma quiet_log_agrees: "quiet c c' \<Longrightarrow> log_agrees c \<Longrightarrow> log_agrees c'"
  by (auto simp: quiet_def log_agrees_def)

lemma quiet_names_kept: "quiet c c' \<Longrightarrow> names_kept c c'"
  by (auto simp: quiet_def names_kept_def)

lemma Index_log_agrees: "Index c idx env = Some c' \<Longrightarrow> log_agrees c \<Longrightarrow> log_agrees c'"
  by (drule Index_effect) (auto simp: log_agrees_def index_written_append)

lemma Index_names_kept:
  assumes "Index c idx env = Some c'"
  shows "names_kept c c'"
proof -
  from Index_effect[OF assms] obtain d where
    "indexSent c' = Some (index_first d (case indexSent c of None \<Rightarrow> Map.empty | Some m \<Rightarrow> m))"
    by auto
  then show ?thesis using index_first_dom by (simp add: names_kept_def)
qed

lemma step_inv:
  assumes "wf c"
  shows "\<exists>c'. step c x = Some c' \<and> wf c' \<and> (log_agrees c \<longrightarrow> log_agrees c') \<and> names_kept c c'"
proof (cases x)
  case (OpIndex idx env)
  from Index_wf[OF assms, of idx env] obtain c' where "Index c idx env = Some c'" "wf c'" by auto
  then show ?thesis using Index_log_agrees Index_names_kept by (auto simp: step_def OpIndex)
next
  case (OpRequest name offset sz hash env)
  from Request_send_wf[OF assms, of name offset sz hash env]
  show ?thesis using quiet_log_agrees quiet_names_kept by (fastforce simp: step_def OpRequest)
next
  case (OpPing env)
  from Ping_send_wf[OF assms, of env]
  show ?thesis using quiet_log_agrees quiet_names_kept by (fastforce simp: step_def OpPing)
next
  case (OpRead now inb env)
  show ?thesis
  proof (cases "closed c")
    case True
    then show ?thesis using assms by (simp add: step_def OpRead isClosed_def names_kept_def)
  next
    case False
    from readerLoop_body_wf[OF assms False, of now inb env]
    show ?thesis using False quiet_log_agrees quiet_names_kept by (fastforce simp: step_def OpRead isClosed_def)
  qed
next
  case (OpRespond i req answer env)
  from respond_wf[OF assms, of i req answer env]
  show ?thesis using quiet_log_agrees quiet_names_kept by (fastforce simp: step_def OpRespond)
next
  case (OpLatency lat)
  have "wf (c\<lparr>peerLatency := (peerLatency c + lat) div 2\<rparr>)"
    using wfD[OF assms] by (intro wfI) simp_all
  then show ?thesis by (simp add: step_def OpLatency log_agrees_def names_kept_def)
next
  case OpClose
  from close_total[OF wfD(1-3)[OF assms]] obtain c' where c': "close c = Some c'" "wf c'" by auto
  have "quiet c c'" using close_quiet[OF c'(1)] by (simp add: quiet_same)
  then show ?thesis using c' quiet_log_agrees quiet_names_kept by (auto simp: step_def OpClose)
qed

lemma run_inv:
  assumes "wf c" "log_agrees c"
  shows "\<exists>c'. run c ops = Some c' \<and> wf c' \<and> log_agrees c'"
  using assms
proof (induction ops arbitrary: c)
  case Nil
  then show ?case by simp
next
  case (Cons x ops)
  from step_inv[OF Cons.prems(1), of x] Cons.prems(2)
  obtain c1 where "step c x = Some c1" "wf c1" "log_agrees c1" by auto
  with Cons.IH[of c1] show ?case by simp
qed

lemma NewConnection_log_agrees: "log_agrees (NewConnection n t)"
  by (simp add: log_agrees_def NewConnection_def)

lemma reachable:
  "\<exists>c. run (NewConnection n t) ops = Some c \<and> wf c \<and> log_agrees c"
  by (rule run_inv[OF NewConnection_wf NewConnection_log_agrees])

lemma send_healthy_step:
  assumes "wf c" "\<not> closed c" "healthy_send x"
  shows "\<exists>c'. step c x = Some c' \<and> wf c' \<and> \<not> closed c' \<and> nextId c' = (nextId c + 1) mod 4096"
proof -
  from assms(1,2) obtain aw where aw: "awaiting c = Some aw" by (auto simp: wf_def table_ok_def)
  have W: "werr (mwriter c) = None" using wfD(4)[OF assms(1)] assms(2) by simp
  show ?thesis
  proof (cases x)
    case (OpRequest name offset sz hash env)
    with assms(3) have h: "header_ok env" "body_ok env" "flush_err env = None" by simp_all
    note e = Request_send_healthy[OF assms(2) aw W h, of name offset sz hash]
    from Request_send_wf[OF assms(1), of name offset sz hash env] e
    obtain c' where c': "Request_send c name offset sz hash env = Some (Blocked (nextChan c), c')"
      "wf c'" by auto
    have "\<not> closed c'" "nextId c' = (nextId c + 1) mod 4096"
      using c'(1) assms(2) unfolding e by (auto simp: and_fff)
    with c' show ?thesis by (simp add: step_def OpRequest)
  next
    case (OpPing env)
    with assms(3) have h: "header_ok env" "flush_err env = None" by simp_all
    note e = Ping_send_healthy[OF assms(2) aw W h]
    from Ping_send_wf[OF assms(1), of env] e
    obtain c' where c': "Ping_send c env = Some (Blocked (nextChan c), c')" "wf c'" by auto
    have "\<not> closed c'" "nextId c' = (nextId c + 1) mod 4096"
      using c'(1) assms(2) unfolding e by (auto simp: and_fff)
    with c' show ?thesis by (simp add: step_def OpPing)
  qed (use assms(3) in simp_all)
qed

lemma sends_nextId:
  assumes "wf c" "\<not> closed c" "list_all healthy_send sends"
  shows "\<exists>c'. run c sends = Some c' \<and> wf c' \<and> \<not> closed c' \<and>
           nextId c' = (nextId c + int (length sends)) mod 4096"
  using assms
proof (induction sends arbitrary: c)
  case Nil
  then show ?case using wfD(2,3)[of c] by simp
next
  case (Cons x sends)
  from send_healthy_step[OF Cons.prems(1,2), of x] Cons.prems(3)
  obtain c1 where c1: "step c x = Some c1" "wf c1" "\<not> closed c1"
    "nextId c1 = (nextId c + 1) mod 4096" by auto
  from Cons.IH[OF c1(2,3)] Cons.prems(3)
  obtain c' where c': "run c1 sends = Some c'" "wf c'" "\<not> closed c'"
    "nextId c' = (nextId c1 + int (length sends)) mod 4096" by auto
  have "nextId c' = (nextId c + int (length (x # sends))) mod 4096"
    unfolding c'(4) c1(4) by (simp add: mod_add_left_eq add.assoc)
  with c1(1) c'(1-3) show ?case by simp
qed



lemma Index_indexSent:
  assumes "Index c idx env = Some c'"
  shows "indexSent c' =
           Some (case indexSent c of
                   None \<Rightarrow> index_first idx Map.empty
                 | Some m \<Rightarrow> snd (index_diff idx [] m))"
  using assms
  by (cases "indexSent c")
     (auto simp: Index_def Let_def close_fields split: prod.splits if_splits)

lemma close_chans_Some:
  "close_chans chs cs = Some cs' \<Longrightarrow>
   cs' = (\<lambda>ch. if ch \<in> set chs then Closed else cs ch) \<and> (\<forall>ch \<in> set chs. cs ch = Open)"
proof (induction chs arbitrary: cs)
  case Nil
  then show ?case by simp
next
  case (Cons a chs)
  from Cons.prems have o: "cs a = Open"
    by (cases "cs a") simp_all
  with Cons.prems have r: "close_chans chs (cs(a := Closed)) = Some cs'" by simp
  from Cons.IH[OF r] have e: "cs' = (\<lambda>ch. if ch \<in> set chs then Closed else (cs(a := Closed)) ch)"
    and op: "\<forall>ch \<in> set chs. (cs(a := Closed)) ch = Open" by simp_all
  have "\<forall>ch \<in> set (a # chs). cs ch = Open"
    using o op by (auto split: if_splits)
  moreover have "cs' = (\<lambda>ch. if ch \<in> set (a # chs) then Closed else cs ch)"
    unfolding e by (auto simp: fun_eq_iff)
  ultimately show ?case by simp
qed

lemma close_chans_again:
  assumes "chs \<noteq> []" "\<forall>ch \<in> set chs. cs ch = Closed"
  shows "close_chans chs cs = None"
  using assms by (cases chs) simp_all

lemma close_open_state:
  assumes "\<not> closed c" "close c = Some c'"
  shows "c' = c\<lparr>closed := True,
                 chans := (\<lambda>ch. if ch \<in> set (range_awaiting (awaiting c)) then Closed
                                else chans c ch),
                 awaiting := None, receiver := receiver c @ [CClose (ID c)]\<rparr>"
    and "\<forall>ch \<in> set (range_awaiting (awaiting c)). chans c ch = Open"
proof -
  from assms obtain cs where cs: "close_chans (range_awaiting (awaiting c)) (chans c) = Some cs"
    and c': "c' = c\<lparr>closed := True, chans := cs, awaiting := None,
                      receiver := receiver c @ [CClose (ID c)]\<rparr>"
    by (auto simp: close_def split: option.splits)
  from close_chans_Some[OF cs]
  show "c' = c\<lparr>closed := True,
                 chans := (\<lambda>ch. if ch \<in> set (range_awaiting (awaiting c)) then Closed
                                else chans c ch),
                 awaiting := None, receiver := receiver c @ [CClose (ID c)]\<rparr>"
    and "\<forall>ch \<in> set (range_awaiting (awaiting c)). chans c ch = Open"
    by (simp_all add: c')
qed









section \<open>The index delta\<close>

text \<open>
  Claim C1, as amended. For a list whose names are pairwise distinct: the first call
  of \<^verbatim>\<open>Index\<close> (\<open>indexSent\<close> is \<^verbatim>\<open>nil\<close>) leaves \<open>indexSent\<close> mapping exactly the names
  of the list, each to the modified time of its entry; every later call changes
  \<open>indexSent\<close> at the names of exactly those entries whose name is absent from it or
  whose modified time differs from the recorded one, to their modified time. When
  the writer has no latched error and the transport accepts the two writes and the
  flush, the first call writes a frame of type Index that holds every entry of the
  list, and a later call a frame of type IndexUpdate that holds exactly those
  entries.

  The claim as written fails on a list that repeats a name: the source looks each
  entry up in the map as the entries before it have left it, not in the map before
  the call.
\<close>

theorem Index_full_then_delta:
  assumes "distinct (map Name idx)"
  shows "(\<forall>c'. Index c idx env = Some c' \<longrightarrow>
            (case indexSent c of
               None \<Rightarrow>
                 (\<exists>m'. indexSent c' = Some m' \<and> dom m' = Name ` set idx \<and>
                       (\<forall>f \<in> set idx. m' (Name f) = Some (Modified f)))
             | Some m \<Rightarrow>
                 (\<exists>m'. indexSent c' = Some m' \<and>
                       (\<forall>f \<in> set (delta_spec m idx). m' (Name f) = Some (Modified f)) \<and>
                       (\<forall>n. n \<notin> Name ` set (delta_spec m idx) \<longrightarrow> m' n = m n)))) \<and>
         (werr (mwriter c) = None \<and> header_ok env \<and> body_ok env \<and> flush_err env = None \<longrightarrow>
            (\<exists>c'. Index c idx env = Some c' \<and>
               wlog (mwriter c') = wlog (mwriter c) @
                 [WUint32 (encodeHeader
                     \<lparr>version = 0, msgID = nextId c,
                      msgType = (if indexSent c = None then messageTypeIndex
                                 else messageTypeIndexUpdate)\<rparr>),
                  WIndex (case indexSent c of None \<Rightarrow> idx | Some m \<Rightarrow> delta_spec m idx)]))"
proof (intro conjI allI impI)
  fix c' assume I: "Index c idx env = Some c'"
  show "case indexSent c of
          None \<Rightarrow>
            (\<exists>m'. indexSent c' = Some m' \<and> dom m' = Name ` set idx \<and>
                  (\<forall>f \<in> set idx. m' (Name f) = Some (Modified f)))
        | Some m \<Rightarrow>
            (\<exists>m'. indexSent c' = Some m' \<and>
                  (\<forall>f \<in> set (delta_spec m idx). m' (Name f) = Some (Modified f)) \<and>
                  (\<forall>n. n \<notin> Name ` set (delta_spec m idx) \<longrightarrow> m' n = m n))"
  proof (cases "indexSent c")
    case None
    then show ?thesis
      using index_first_distinct[OF assms] by (simp add: Index_indexSent[OF I])
  next
    case (Some m)
    then show ?thesis
      using delta_update_distinct[OF assms, of m]
      by (simp add: Index_indexSent[OF I] index_diff_distinct[OF assms])
  qed
next
  assume "werr (mwriter c) = None \<and> header_ok env \<and> body_ok env \<and> flush_err env = None"
  then show "\<exists>c'. Index c idx env = Some c' \<and>
               wlog (mwriter c') = wlog (mwriter c) @
                 [WUint32 (encodeHeader
                     \<lparr>version = 0, msgID = nextId c,
                      msgType = (if indexSent c = None then messageTypeIndex
                                 else messageTypeIndexUpdate)\<rparr>),
                  WIndex (case indexSent c of None \<Rightarrow> idx | Some m \<Rightarrow> delta_spec m idx)]"
    by (cases "indexSent c") (simp_all add: Index_healthy index_diff_distinct[OF assms])
qed

theorem Index_full_then_delta_witness:
  "\<exists>c'. Index ((NewConnection ''B'' 0)\<lparr>indexSent := Some [''a'' \<mapsto> 1, ''b'' \<mapsto> 2], nextId := 1\<rparr>)
          [entry ''a'' 1, entry ''b'' 3, entry ''c'' 4] io_ok = Some c' \<and>
        wlog (mwriter c') =
          [WUint32 (encodeHeader \<lparr>version = 0, msgID = 1, msgType = messageTypeIndexUpdate\<rparr>),
           WIndex [entry ''b'' 3, entry ''c'' 4]] \<and>
        (\<exists>m'. indexSent c' = Some m' \<and> m' ''a'' = Some 1 \<and> m' ''b'' = Some 3 \<and> m' ''c'' = Some 4)"
proof -
  let ?c = "(NewConnection ''B'' 0)\<lparr>indexSent := Some [''a'' \<mapsto> 1, ''b'' \<mapsto> 2], nextId := 1\<rparr>"
  let ?idx = "[entry ''a'' 1, entry ''b'' 3, entry ''c'' 4]"
  have d: "distinct (map Name ?idx)" by (simp add: entry_def)
  have h: "werr (mwriter ?c) = None \<and> header_ok io_ok \<and> body_ok io_ok \<and> flush_err io_ok = None"
    by (simp add: NewConnection_def io_ok_def)
  have ds: "delta_spec [''a'' \<mapsto> 1, ''b'' \<mapsto> 2] ?idx = [entry ''b'' 3, entry ''c'' 4]"
    by (simp add: delta_spec_def entry_def)
  from Index_full_then_delta[OF d, of ?c io_ok] h
  obtain c' where c': "Index ?c ?idx io_ok = Some c'"
    "wlog (mwriter c') =
       [WUint32 (encodeHeader \<lparr>version = 0, msgID = 1, msgType = messageTypeIndexUpdate\<rparr>),
        WIndex [entry ''b'' 3, entry ''c'' 4]]"
    by (auto simp: ds NewConnection_def)
  from Index_full_then_delta[OF d, of ?c io_ok] c'(1)
  obtain m' where m': "indexSent c' = Some m'"
    "\<forall>f \<in> set [entry ''b'' 3, entry ''c'' 4]. m' (Name f) = Some (Modified f)"
    "\<forall>n. n \<notin> Name ` set [entry ''b'' 3, entry ''c'' 4] \<longrightarrow> m' n = [''a'' \<mapsto> 1, ''b'' \<mapsto> 2] n"
    by (auto simp: ds)
  have "m' ''a'' = Some 1" "m' ''b'' = Some 3" "m' ''c'' = Some 4"
    using m'(2,3) by (simp_all add: entry_def)
  with c' m'(1) show ?thesis by blast
qed

text \<open>
  The counterexample. After a full index \<open>{a:1}\<close> the map records 1 for \<open>a\<close>. The
  next call is given \<open>[{a:2}, {a:1}]\<close>: by the claim the update holds \<open>{a:2}\<close> alone,
  the source sends both entries, the second because by then the map holds 2 for \<open>a\<close>.
\<close>

theorem Index_duplicate_names_counterexample:
  "map_option indexSent (run (NewConnection ''B'' 0) [OpIndex [entry ''a'' 1] io_ok])
     = Some (Some [''a'' \<mapsto> 1]) \<and>
   delta_spec [''a'' \<mapsto> 1] [entry ''a'' 2, entry ''a'' 1] = [entry ''a'' 2] \<and>
   map_option (wlog \<circ> mwriter)
     (run (NewConnection ''B'' 0)
        [OpIndex [entry ''a'' 1] io_ok, OpIndex [entry ''a'' 2, entry ''a'' 1] io_ok])
     = Some [WUint32 (encodeHeader \<lparr>version = 0, msgID = 0, msgType = messageTypeIndex\<rparr>),
             WIndex [entry ''a'' 1],
             WUint32 (encodeHeader \<lparr>version = 0, msgID = 1, msgType = messageTypeIndexUpdate\<rparr>),
             WIndex [entry ''a'' 2, entry ''a'' 1]]"
  by (simp add: step_def Index_def Let_def writer_defs NewConnection_def io_ok_def entry_def delta_spec_def)

section \<open>\<^verbatim>\<open>close\<close> cancels the pending calls\<close>




section \<open>\<^verbatim>\<open>close\<close> is idempotent\<close>

text \<open>
  Claim C3. \<^verbatim>\<open>close\<close> on a closed connection returns the state as it is, and on every
  well-formed connection it returns. On an open
  connection the first \<^verbatim>\<open>close\<close> that returns gives exactly this state: the flag set,
  every channel of the table closed and no other channel touched, the table
  \<^verbatim>\<open>nil\<close>, and one call of \<^verbatim>\<open>Receiver.Close\<close> with the peer id added to the calls made
  on the receiver. Each channel of the table was open before and is closed after,
  so the caller waiting on it returns; closing the same channels a second time would
  panic. For every \<open>n \<ge> 1\<close> the state after \<open>n\<close> invocations is the state after the
  first, so the flag is set once, the waiters are cancelled once and
  \<^verbatim>\<open>Receiver.Close\<close> is called once.
\<close>

theorem close_idempotent:
  "(closed c \<longrightarrow> close c = Some c) \<and>
   (wf c \<longrightarrow> close c \<noteq> None) \<and>
   (\<not> closed c \<and> close c = Some c' \<longrightarrow>
      c' = c\<lparr>closed := True,
              chans := (\<lambda>ch. if ch \<in> set (range_awaiting (awaiting c)) then Closed
                             else chans c ch),
              awaiting := None, receiver := receiver c @ [CClose (ID c)]\<rparr> \<and>
      (\<forall>ch \<in> set (range_awaiting (awaiting c)).
          chans c ch = Open \<and> chans c' ch = Closed \<and>
          Request_wait c' ch = Some ([], Some ErrClosed)) \<and>
      (range_awaiting (awaiting c) \<noteq> [] \<longrightarrow>
          close_chans (range_awaiting (awaiting c)) (chans c') = None) \<and>
      closed c' \<and> awaiting c' = None \<and>
      receiver c' = receiver c @ [CClose (ID c)] \<and>
      close c' = Some c' \<and>
      (\<forall>n. 1 \<le> n \<longrightarrow> run c (replicate n OpClose) = Some c'))"
proof (intro conjI impI)
  show "close c = Some c" if "closed c" using that by (rule close_closed)
next
  show "close c \<noteq> None" if "wf c" using close_wf[OF that] by simp
next
  assume h: "\<not> closed c \<and> close c = Some c'"
  then have o: "\<not> closed c" and e: "close c = Some c'" by simp_all
  note c' = close_open_state(1)[OF o e] and op = close_open_state(2)[OF o e]
  show "c' = c\<lparr>closed := True,
              chans := (\<lambda>ch. if ch \<in> set (range_awaiting (awaiting c)) then Closed
                             else chans c ch),
              awaiting := None, receiver := receiver c @ [CClose (ID c)]\<rparr>"
    by (rule c')
  have cl: "\<forall>ch \<in> set (range_awaiting (awaiting c)). chans c' ch = Closed"
    by (subst c') simp
  show "\<forall>ch \<in> set (range_awaiting (awaiting c)).
          chans c ch = Open \<and> chans c' ch = Closed \<and>
          Request_wait c' ch = Some ([], Some ErrClosed)"
    using op cl by (simp add: Request_wait_def)
  show "close_chans (range_awaiting (awaiting c)) (chans c') = None"
    if "range_awaiting (awaiting c) \<noteq> []"
    using that cl by (rule close_chans_again)
  show k: "closed c'" "awaiting c' = None" "receiver c' = receiver c @ [CClose (ID c)]"
    by (subst c', simp)+
  from k(1) show "close c' = Some c'" by (rule close_closed)
  show "\<forall>n. 1 \<le> n \<longrightarrow> run c (replicate n OpClose) = Some c'"
  proof (intro allI impI)
    fix n :: nat assume "1 \<le> n"
    then obtain m where "n = Suc m" by (cases n) auto
    then show "run c (replicate n OpClose) = Some c'"
      using e run_close_closed[OF k(1), of m] by (simp add: step_def)
  qed
qed

theorem close_idempotent_witness:
  "\<exists>c c'. run (NewConnection ''B'' 0) [OpPing io_ok] = Some c \<and> wf c \<and> \<not> closed c \<and>
      range_awaiting (awaiting c) = [0] \<and> chans c 0 = Open \<and>
      close c \<noteq> None \<and> close c = Some c' \<and> closed c' \<and> awaiting c' = None \<and> chans c' 0 = Closed \<and>
      Request_wait c' 0 = Some ([], Some ErrClosed) \<and>
      close_chans [0] (chans c') = None \<and>
      receiver c' = [CClose ''B''] \<and>
      run c [OpClose, OpClose, OpClose] = Some c'"
proof -
  let ?init = "NewConnection ''B'' 0"
  let ?p = "?init\<lparr>chans := (\<lambda>_. Open), nextChan := 1, awaiting := Some [(0, 0)],
              mwriter := \<lparr>wlog = [WUint32 (encodeHeader
                  \<lparr>version = 0, msgID = 0, msgType = messageTypePing\<rparr>)], werr = None\<rparr>,
              nextId := 1\<rparr>"
  let ?q = "?p\<lparr>closed := True, chans := (\<lambda>ch. if ch \<in> set [0] then Closed else Open),
              awaiting := None, receiver := [CClose ''B'']\<rparr>"
  have r: "run ?init [OpPing io_ok] = Some ?p"
    by (simp add: step_def Ping_send_def isClosed_def Let_def writer_defs NewConnection_def
        io_ok_def fun_eq_iff)
  have w: "wf ?p" by (simp add: wf_def table_ok_def NewConnection_def)
  have o: "\<not> closed ?p" by (simp add: NewConnection_def)
  have rg: "range_awaiting (awaiting ?p) = [0]" by (simp add: range_awaiting_def)
  have e: "close ?p = Some ?q"
    by (simp add: close_def range_awaiting_def NewConnection_def fun_eq_iff)
  from close_idempotent[of ?p ?q] w have t0: "close ?p \<noteq> None" by blast
  have three: "replicate 3 OpClose = [OpClose, OpClose, OpClose]" by (simp add: numeral_3_eq_3)
  from close_idempotent[of ?p ?q] o e
  have a: "(\<forall>ch \<in> set (range_awaiting (awaiting ?p)).
              chans ?p ch = Open \<and> chans ?q ch = Closed \<and>
              Request_wait ?q ch = Some ([], Some ErrClosed)) \<and>
           (range_awaiting (awaiting ?p) \<noteq> [] \<longrightarrow>
              close_chans (range_awaiting (awaiting ?p)) (chans ?q) = None) \<and>
           closed ?q \<and> awaiting ?q = None \<and>
           receiver ?q = receiver ?p @ [CClose (ID ?p)] \<and>
           (\<forall>n. 1 \<le> n \<longrightarrow> run ?p (replicate n OpClose) = Some ?q)"
    by blast
  then have t: "run ?p (replicate 3 OpClose) = Some ?q" by simp
  from a have b: "chans ?p 0 = Open" "chans ?q 0 = Closed"
    "Request_wait ?q 0 = Some ([], Some ErrClosed)" "close_chans [0] (chans ?q) = None"
    "closed ?q" "awaiting ?q = None" "receiver ?q = [CClose ''B'']"
    unfolding rg by (simp_all add: NewConnection_def)
  from r w o rg t0 e t b show ?thesis unfolding three by blast
qed

section \<open>What \<open>indexSent\<close> records\<close>

text \<open>
  Claim C4, as amended. At every point of a connection's lifetime at which the writer
  has no latched error, \<open>indexSent\<close> holds exactly the names written in the Index and
  IndexUpdate bodies so far, each with the modified time most recently written for
  it (and is \<^verbatim>\<open>nil\<close> when no index body has been written); and no operation ever
  removes a name from \<open>indexSent\<close>. A name is recorded before its frame is written,
  so a name whose frame failed to transmit is recorded all the same.
\<close>

theorem indexSent_follows_Index:
  "(run (NewConnection n t) ops = Some c \<and> werr (mwriter c) = None \<longrightarrow>
      indexSent c = index_written (wlog (mwriter c)) None) \<and>
   (run (NewConnection n t) ops = Some c \<and> step c x = Some c' \<and> indexSent c = Some m \<longrightarrow>
      (\<exists>m'. indexSent c' = Some m' \<and> dom m \<subseteq> dom m'))"
proof (intro conjI impI)
  assume "run (NewConnection n t) ops = Some c \<and> werr (mwriter c) = None"
  then show "indexSent c = index_written (wlog (mwriter c)) None"
    using reachable[of n t ops] by (auto simp: log_agrees_def)
next
  assume a: "run (NewConnection n t) ops = Some c \<and> step c x = Some c' \<and> indexSent c = Some m"
  then have "wf c" using reachable[of n t ops] by auto
  from step_inv[OF this, of x] a show "\<exists>m'. indexSent c' = Some m' \<and> dom m \<subseteq> dom m'"
    by (auto simp: names_kept_def)
qed

theorem indexSent_follows_Index_witness:
  "\<exists>c c' m m'. run (NewConnection ''B'' 0) [OpIndex [entry ''a'' 1] io_ok] = Some c \<and>
      werr (mwriter c) = None \<and>
      indexSent c = index_written (wlog (mwriter c)) None \<and>
      step c (OpIndex [entry ''b'' 2] io_ok) = Some c' \<and>
      indexSent c = Some m \<and> indexSent c' = Some m' \<and> dom m \<subseteq> dom m'"
proof -
  let ?init = "NewConnection ''B'' 0"
  let ?c = "?init\<lparr>indexSent := Some [''a'' \<mapsto> 1],
               mwriter := \<lparr>wlog = [WUint32 (encodeHeader
                   \<lparr>version = 0, msgID = 0, msgType = messageTypeIndex\<rparr>), WIndex [entry ''a'' 1]],
                 werr = None\<rparr>, nextId := 1\<rparr>"
  let ?c' = "?init\<lparr>indexSent := Some [''a'' \<mapsto> 1, ''b'' \<mapsto> 2],
               mwriter := \<lparr>wlog = [WUint32 (encodeHeader
                   \<lparr>version = 0, msgID = 0, msgType = messageTypeIndex\<rparr>), WIndex [entry ''a'' 1],
                   WUint32 (encodeHeader
                   \<lparr>version = 0, msgID = 1, msgType = messageTypeIndexUpdate\<rparr>), WIndex [entry ''b'' 2]],
                 werr = None\<rparr>, nextId := 2\<rparr>"
  have r: "run ?init [OpIndex [entry ''a'' 1] io_ok] = Some ?c"
    by (simp add: step_def Index_def Let_def writer_defs NewConnection_def io_ok_def entry_def)
  have s: "step ?c (OpIndex [entry ''b'' 2] io_ok) = Some ?c'"
    by (simp add: step_def Index_def Let_def writer_defs NewConnection_def io_ok_def entry_def)
  have w: "werr (mwriter ?c) = None" by simp
  have m: "indexSent ?c = Some [''a'' \<mapsto> 1]" by simp
  from indexSent_follows_Index[of "''B''" 0 "[OpIndex [entry ''a'' 1] io_ok]" ?c
      "OpIndex [entry ''b'' 2] io_ok" ?c' "[''a'' \<mapsto> 1]"] r s w m
  have "indexSent ?c = index_written (wlog (mwriter ?c)) None \<and>
        (\<exists>m'. indexSent ?c' = Some m' \<and> dom [''a'' \<mapsto> (1::64 word)] \<subseteq> dom m')"
    by blast
  with r s w m show ?thesis by blast
qed

text \<open>
  The counterexample to the claim as written: the first \<^verbatim>\<open>Index\<close> with \<open>{a:1}\<close> on
  a transport that refuses the write. Nothing is written and \<open>a\<close> is recorded.
\<close>

theorem indexSent_failed_write_counterexample:
  "map_option indexSent
     (run (NewConnection ''B'' 0)
        [OpIndex [entry ''a'' 1] \<lparr>header_ok = False, body_ok = False, flush_err = None\<rparr>])
     = Some (Some [''a'' \<mapsto> 1]) \<and>
   map_option (wlog \<circ> mwriter)
     (run (NewConnection ''B'' 0)
        [OpIndex [entry ''a'' 1] \<lparr>header_ok = False, body_ok = False, flush_err = None\<rparr>])
     = Some []"
  by (simp add: step_def Index_def Let_def writer_defs NewConnection_def entry_def close_def
      range_awaiting_def)

section \<open>Replies are matched by message id\<close>

text \<open>
  Claim C5, as amended. For an inbound Response or Pong frame read by the loop of an
  open connection: if a pending call is registered under the frame's message id, its
  channel receives exactly the frame's payload, the caller that was blocked returns
  with it, and the entry is removed, so that a second frame with the same id finds
  nothing; if no pending call is registered under the id, nothing is delivered to
  any caller and the state stays as it was apart from \<open>lastReceive\<close>, which the loop
  sets to the time of arrival for every header of version 0.
\<close>

theorem reply_fulfils_once:
  assumes "wf c" and "\<not> closed c" and "in_header inb = Some u"
    and "version (decodeHeader u) = 0" and "payload inb u = Some res"
  shows "case lookup_awaiting (awaiting c) (msgID (decodeHeader u)) of
           None \<Rightarrow> readerLoop_body c now inb env = Some (c\<lparr>lastReceive := now\<rparr>, None)
         | Some rc \<Rightarrow>
             (\<exists>c'. readerLoop_body c now inb env = Some (c', None) \<and>
                c' = c\<lparr>lastReceive := now, chans := (chans c)(rc := Sent res),
                       awaiting := delete_awaiting (awaiting c) (msgID (decodeHeader u))\<rparr> \<and>
                Request_wait c rc = None \<and>
                Request_wait c' rc = Some (val res, None) \<and>
                Ping_wait c' rc t0 t1 = Some (t1 - t0, True) \<and>
                lookup_awaiting (awaiting c') (msgID (decodeHeader u)) = None \<and>
                readerLoop_body c' now' inb env' = Some (c'\<lparr>lastReceive := now'\<rparr>, None))"
proof -
  let ?i = "msgID (decodeHeader u)"
  have e: "err res = None"
    using assms(5) by (auto simp: payload_def split: if_splits)
  have b: "readerLoop_body c now inb env =
      map_option (\<lambda>c'. (c', None)) (fulfil (c\<lparr>lastReceive := now\<rparr>) ?i res)"
    using assms(5) reply_body[OF assms(1-4)]
    by (auto simp: payload_def split: if_splits)
  show ?thesis
  proof (cases "lookup_awaiting (awaiting c) ?i")
    case None
    then show ?thesis by (simp add: b fulfil_missing)
  next
    case (Some rc)
    have o: "chans c rc = Open" using wf_lookup_open(1)[OF assms(1) Some] .
    let ?c' = "c\<lparr>lastReceive := now, chans := (chans c)(rc := Sent res),
                  awaiting := delete_awaiting (awaiting c) ?i\<rparr>"
    have b': "readerLoop_body c now inb env = Some (?c', None)"
      using Some o by (simp add: b fulfil_found)
    have w': "wf ?c'"
      using wf_fulfil[of "c\<lparr>lastReceive := now\<rparr>" ?i rc res] assms(1) Some by simp
    have n': "\<not> closed ?c'" using assms(2) by simp
    have b2: "readerLoop_body ?c' now' inb env' =
      map_option (\<lambda>c'. (c', None)) (fulfil (?c'\<lparr>lastReceive := now'\<rparr>) ?i res)"
      using assms(5) reply_body[OF w' n' assms(3,4)]
      by (auto simp: payload_def split: if_splits)
    have dup: "readerLoop_body ?c' now' inb env' = Some (?c'\<lparr>lastReceive := now'\<rparr>, None)"
      by (simp add: b2 fulfil_missing)
    show ?thesis
      using o e dup by (simp add: Some b' Request_wait_def Ping_wait_def)
  qed
qed

theorem reply_fulfils_once_witness:
  "readerLoop_body
     ((NewConnection ''B'' 0)\<lparr>awaiting := Some [(5, 0)], nextChan := 1, nextId := 6\<rparr>)
     9 (no_body 0x00050500) io_ok =
   Some ((NewConnection ''B'' 0)\<lparr>awaiting := Some [], nextChan := 1, nextId := 6, lastReceive := 9,
            chans := (\<lambda>_. Open)(0 := Sent \<lparr>val = [], err = None\<rparr>)\<rparr>, None)"
proof -
  let ?c = "(NewConnection ''B'' 0)\<lparr>awaiting := Some [(5, 0)], nextChan := 1, nextId := 6\<rparr>"
  have d: "decodeHeader 0x00050500 = \<lparr>version = 0, msgID = 5, msgType = 5\<rparr>"
    by (simp add: decodeHeader_def)
  have w: "wf ?c" by (simp add: wf_def table_ok_def NewConnection_def)
  have n: "\<not> closed ?c" by (simp add: NewConnection_def)
  have h: "in_header (no_body 0x00050500) = Some 0x00050500" by (simp add: no_body_def)
  have v: "version (decodeHeader 0x00050500) = 0" by (simp add: d)
  have p: "payload (no_body 0x00050500) 0x00050500 = Some \<lparr>val = [], err = None\<rparr>"
    by (simp add: payload_def d messageTypeResponse_def messageTypePong_def)
  from reply_fulfils_once[OF w n h v p, of 9 io_ok 0 0 0 io_ok]
  show ?thesis
    by (simp add: d lookup_awaiting_def delete_awaiting_def NewConnection_def)
qed

text \<open>
  The counterexample to the claim as written (no state change): a Pong with the
  unregistered id 5 that arrives at time 9 moves \<open>lastReceive\<close> from 0 to 9.
\<close>

theorem reply_unknown_id_counterexample:
  "lookup_awaiting (awaiting (NewConnection ''B'' 0)) 5 = None \<and>
   lastReceive (NewConnection ''B'' 0) = 0 \<and>
   map_option (lastReceive \<circ> fst)
     (readerLoop_body (NewConnection ''B'' 0) 9 (no_body 0x00050500) io_ok) = Some 9"
  by (simp add: readerLoop_body_def reader_defs decodeHeader_def Let_def no_body_def
      NewConnection_def fulfil_def lookup_awaiting_def
      messageTypeResponse_def messageTypeIndex_def messageTypeIndexUpdate_def
      messageTypeRequest_def messageTypePing_def messageTypePong_def)

section \<open>\<open>nextId\<close> counts modulo 4096\<close>

text \<open>
  Claim C6. In every state a connection can reach \<open>nextId\<close> lies in \<open>0..0xFFF\<close>. A
  \<^verbatim>\<open>Request\<close> or \<^verbatim>\<open>Ping\<close> whose message was written (the caller is left waiting for
  the reply) advances \<open>nextId\<close> by one modulo 4096. From every reachable open state,
  4096 such sends in a row all succeed and bring \<open>nextId\<close> back to the value it
  started from.
\<close>

theorem nextId_wraps_at_4096:
  "(run (NewConnection n t) ops = Some c \<longrightarrow> 0 \<le> nextId c \<and> nextId c \<le> 0xfff) \<and>
   (Request_send c1 name offset sz hash env = Some (Blocked rc, c2) \<longrightarrow>
      nextId c2 = (nextId c1 + 1) mod 4096) \<and>
   (Ping_send c1 env = Some (Blocked rc, c3) \<longrightarrow> nextId c3 = (nextId c1 + 1) mod 4096) \<and>
   (run (NewConnection n t) ops = Some c \<and> \<not> closed c \<and>
    list_all healthy_send sends \<and> length sends = 4096 \<longrightarrow>
      (\<exists>c'. run c sends = Some c' \<and> \<not> closed c' \<and> nextId c' = nextId c))"
proof (intro conjI impI)
  assume "run (NewConnection n t) ops = Some c"
  then have "wf c" using reachable[of n t ops] by auto
  then show "0 \<le> nextId c" "nextId c \<le> 0xfff" by (rule wfD)+
next
  assume "Request_send c1 name offset sz hash env = Some (Blocked rc, c2)"
  then show "nextId c2 = (nextId c1 + 1) mod 4096"
    by (auto simp: Request_send_def Let_def and_fff split: if_splits option.splits)
next
  assume "Ping_send c1 env = Some (Blocked rc, c3)"
  then show "nextId c3 = (nextId c1 + 1) mod 4096"
    by (auto simp: Ping_send_def Let_def and_fff split: if_splits option.splits)
next
  assume a: "run (NewConnection n t) ops = Some c \<and> \<not> closed c \<and>
    list_all healthy_send sends \<and> length sends = 4096"
  then have w: "wf c" using reachable[of n t ops] by auto
  from a have o: "\<not> closed c" and h: "list_all healthy_send sends"
    and l: "length sends = 4096" by simp_all
  from sends_nextId[OF w o h] obtain c' where c': "run c sends = Some c'" "\<not> closed c'"
    "nextId c' = (nextId c + int (length sends)) mod 4096" by blast
  have "nextId c' = nextId c" using c'(3) wfD(2,3)[OF w] by (simp add: l)
  with c'(1,2) show "\<exists>c'. run c sends = Some c' \<and> \<not> closed c' \<and> nextId c' = nextId c"
    by blast
qed

theorem nextId_wraps_at_4096_witness:
  "\<exists>c'. run (NewConnection ''B'' 0) (replicate 4096 (OpPing io_ok)) = Some c' \<and>
        \<not> closed c' \<and> nextId c' = 0"
proof -
  let ?c = "NewConnection ''B'' 0"
  have r: "run ?c [] = Some ?c" by simp
  have o: "\<not> closed ?c" by (simp add: NewConnection_def)
  have h: "list_all healthy_send (replicate 4096 (OpPing io_ok))"
    by (simp add: list_all_iff io_ok_def)
  have l: "length (replicate 4096 (OpPing io_ok)) = 4096" by simp
  from nextId_wraps_at_4096[of "''B''" 0 "[]" ?c _ _ _ _ _ _ _ _ _ "replicate 4096 (OpPing io_ok)"]
    r o h l
  have "\<exists>c'. run ?c (replicate 4096 (OpPing io_ok)) = Some c' \<and> \<not> closed c' \<and> nextId c' = nextId ?c"
    by blast
  then show ?thesis by (simp add: NewConnection_def)
qed

section \<open>A bad version or an unknown type closes the connection\<close>

text \<open>
  Claim C7. When the reader loop of an open connection reads a header whose version is
  not 0, or whose type is none of the six known codes, the iteration closes the
  connection, the only call made on the receiver is \<^verbatim>\<open>Close\<close>, no goroutine that
  would call \<^verbatim>\<open>Receiver.Request\<close> is started, nothing is written, and the loop ends
  there whatever follows on the stream.
\<close>

theorem bad_frame_closes:
  assumes "wf c" and "\<not> closed c" and "in_header inb = Some u"
    and "version (decodeHeader u) \<noteq> 0 \<or>
         msgType (decodeHeader u) \<notin> {messageTypeIndex, messageTypeRequest,
           messageTypeResponse, messageTypePing, messageTypePong, messageTypeIndexUpdate}"
  shows "\<exists>c'. readerLoop_body c now inb env = Some (c', None) \<and>
           closed c' \<and> receiver c' = receiver c @ [CClose (ID c)] \<and>
           mwriter c' = mwriter c \<and>
           readerLoop c ((now, inb, env) # rest) = Some (c', [])"
proof -
  have r: "rerr (mreader c) = None" using assms(1,2) by (rule wf_open_reader)
  have rh: "readHeader (mreader c) (in_header inb) = (mreader c, decodeHeader u)"
    using r assms(3) by (simp add: reader_defs)
  show ?thesis
  proof (cases "version (decodeHeader u) \<noteq> 0")
    case True
    have b: "readerLoop_body c now inb env = map_option (\<lambda>c'. (c', None)) (close c)"
      using r rh True by (simp add: readerLoop_body_def Let_def)
    show ?thesis
      using assms(2) by (simp add: b close_wf[OF assms(1)] isClosed_def readerLoop_closed)
  next
    case False
    with assms(4) have t: "msgType (decodeHeader u) \<noteq> messageTypeIndex"
      "msgType (decodeHeader u) \<noteq> messageTypeRequest"
      "msgType (decodeHeader u) \<noteq> messageTypeResponse"
      "msgType (decodeHeader u) \<noteq> messageTypePing"
      "msgType (decodeHeader u) \<noteq> messageTypePong"
      "msgType (decodeHeader u) \<noteq> messageTypeIndexUpdate"
      by auto
    have w: "wf (c\<lparr>lastReceive := now\<rparr>)" using assms(1) by simp
    have b: "readerLoop_body c now inb env =
        map_option (\<lambda>c'. (c', None)) (close (c\<lparr>lastReceive := now\<rparr>))"
      using r rh False t by (simp add: readerLoop_body_def Let_def)
    show ?thesis
      using assms(2) by (simp add: b close_wf[OF w] isClosed_def readerLoop_closed)
  qed
qed

theorem bad_frame_closes_witness:
  "\<exists>c'. readerLoop_body (NewConnection ''B'' 0) 9 (no_body 0x10000100) io_ok = Some (c', None) \<and>
        closed c' \<and> receiver c' = [CClose ''B'']"
proof -
  have v: "version (decodeHeader 0x10000100) \<noteq> 0" by (simp add: decodeHeader_def)
  have n: "\<not> closed (NewConnection ''B'' 0)" by (simp add: NewConnection_def)
  have h: "in_header (no_body 0x10000100) = Some 0x10000100" by (simp add: no_body_def)
  from bad_frame_closes[OF NewConnection_wf n h, of 9 io_ok "[]"] v
  show ?thesis by (auto simp: NewConnection_def)
qed

section \<open>A receiver error does not reach the wire\<close>

text \<open>
  Claim C8, as amended. When \<^verbatim>\<open>Receiver.Request\<close> returns an error the goroutine does
  exactly what it does when the receiver returns the same bytes and no error: the
  error is discarded. With a writer that has no latched error and a transport that
  accepts the writes and the flush, the peer is sent one Response frame with the
  message id of the request, whose body is the byte slice the receiver returned
  beside the error: empty when that slice is empty.
\<close>

theorem receiver_error_discarded:
  "respond c i req (data, Some e) env = respond c i req (data, None) env \<and>
   (werr (mwriter c) = None \<and> header_ok env \<and> body_ok env \<and> flush_err env = None \<longrightarrow>
      (\<exists>c'. respond c i req (data, Some e) env = Some c' \<and>
         closed c' = closed c \<and>
         wlog (mwriter c') = wlog (mwriter c) @
           [WUint32 (encodeHeader \<lparr>version = 0, msgID = i, msgType = messageTypeResponse\<rparr>),
            WResponse data]))"
proof (intro conjI impI)
  show "respond c i req (data, Some e) env = respond c i req (data, None) env"
    by (simp add: respond_def)
next
  assume "werr (mwriter c) = None \<and> header_ok env \<and> body_ok env \<and> flush_err env = None"
  then show "\<exists>c'. respond c i req (data, Some e) env = Some c' \<and>
         closed c' = closed c \<and>
         wlog (mwriter c') = wlog (mwriter c) @
           [WUint32 (encodeHeader \<lparr>version = 0, msgID = i, msgType = messageTypeResponse\<rparr>),
            WResponse data]"
    by (simp add: respond_healthy)
qed

theorem receiver_error_discarded_witness:
  "map_option (wlog \<circ> mwriter)
     (respond (NewConnection ''B'' 0) 7 block_request ([], Some (ErrOther ''open'')) io_ok) =
   Some [WUint32 (encodeHeader \<lparr>version = 0, msgID = 7, msgType = messageTypeResponse\<rparr>),
         WResponse []]"
proof -
  let ?c = "NewConnection ''B'' 0"
  have w: "werr (mwriter ?c) = None \<and> header_ok io_ok \<and> body_ok io_ok \<and> flush_err io_ok = None"
    by (simp add: NewConnection_def io_ok_def)
  from receiver_error_discarded[of ?c 7 block_request "[]" "ErrOther ''open''" io_ok] w
  obtain c' where "respond ?c 7 block_request ([], Some (ErrOther ''open'')) io_ok = Some c'"
    and "wlog (mwriter c') = wlog (mwriter ?c) @
           [WUint32 (encodeHeader \<lparr>version = 0, msgID = 7, msgType = messageTypeResponse\<rparr>),
            WResponse []]"
    by blast
  then show ?thesis by (simp add: NewConnection_def)
qed

text \<open>
  The counterexample to the claim as written: a receiver that returns two bytes and
  an error. The Response carries the two bytes.
\<close>

theorem receiver_error_with_data_counterexample:
  "map_option (wlog \<circ> mwriter)
     (respond (NewConnection ''B'' 0) 7 block_request ([0xAA, 0xBB], Some (ErrOther ''read'')) io_ok) =
   Some [WUint32 (encodeHeader \<lparr>version = 0, msgID = 7, msgType = messageTypeResponse\<rparr>),
         WResponse [0xAA, 0xBB]]"
  by (simp add: respond_def Let_def writer_defs NewConnection_def io_ok_def)

section \<open>Keep-alive\<close>




section \<open>\<^verbatim>\<open>Index\<close> always writes a frame and takes a message id\<close>

text \<open>
  Claim C10, as amended. Every call of \<^verbatim>\<open>Index\<close> that returns leaves \<open>nextId\<close>
  advanced by one modulo 4096, whatever the transport did. When the writer has no
  latched error and the transport accepts the writes and the flush, the call writes
  exactly one frame, a header that carries \<open>nextId\<close> and one index body, and registers
  no pending call; a second call with the same list, when its names are pairwise
  distinct, still writes one frame, an IndexUpdate with zero entries, and advances
  \<open>nextId\<close> again; and a \<^verbatim>\<open>Ping\<close> after the \<^verbatim>\<open>Index\<close> carries the message id that
  follows the one the \<^verbatim>\<open>Index\<close> frame took.
\<close>

theorem Index_always_one_frame:
  "(\<forall>c'. Index c idx env = Some c' \<longrightarrow> nextId c' = (nextId c + 1) mod 4096) \<and>
   (werr (mwriter c) = None \<and> header_ok env \<and> body_ok env \<and> flush_err env = None \<longrightarrow>
     (\<exists>c'. Index c idx env = Some c' \<and>
        closed c' = closed c \<and> awaiting c' = awaiting c \<and>
        (\<exists>d. wlog (mwriter c') = wlog (mwriter c) @
                 [WUint32 (encodeHeader \<lparr>version = 0, msgID = nextId c,
                    msgType = (if indexSent c = None then messageTypeIndex
                               else messageTypeIndexUpdate)\<rparr>),
                  WIndex d]) \<and>
        (distinct (map Name idx) \<longrightarrow>
           (\<exists>c''. Index c' idx env = Some c'' \<and>
              nextId c'' = (nextId c' + 1) mod 4096 \<and>
              wlog (mwriter c'') = wlog (mwriter c') @
                [WUint32 (encodeHeader
                    \<lparr>version = 0, msgID = nextId c', msgType = messageTypeIndexUpdate\<rparr>),
                 WIndex []])) \<and>
        (\<not> closed c \<and> awaiting c \<noteq> None \<longrightarrow>
           (\<exists>rc c''. Ping_send c' env = Some (Blocked rc, c'') \<and>
              wlog (mwriter c'') = wlog (mwriter c') @
                [WUint32 (encodeHeader
                    \<lparr>version = 0, msgID = (nextId c + 1) mod 4096,
                     msgType = messageTypePing\<rparr>)]))))"
proof (intro conjI impI allI)
  fix c' assume "Index c idx env = Some c'"
  then show "nextId c' = (nextId c + 1) mod 4096" by (rule Index_nextId)
next
  assume h: "werr (mwriter c) = None \<and> header_ok env \<and> body_ok env \<and> flush_err env = None"
  define c' where "c' = the (Index c idx env)"
  have eq: "Index c idx env = Some c'"
    unfolding c'_def using h by (simp add: Index_healthy)
  have c': "c' = c\<lparr>indexSent := Some (case indexSent c of None \<Rightarrow> index_first idx Map.empty
                                   | Some m \<Rightarrow> snd (index_diff idx [] m)),
             mwriter := (mwriter c)\<lparr>wlog := wlog (mwriter c) @
                [WUint32 (encodeHeader \<lparr>version = 0, msgID = nextId c,
                     msgType = (case indexSent c of None \<Rightarrow> messageTypeIndex
                                | Some m \<Rightarrow> messageTypeIndexUpdate)\<rparr>),
                 WIndex (case indexSent c of None \<Rightarrow> idx
                         | Some m \<Rightarrow> fst (index_diff idx [] m))]\<rparr>,
             nextId := (nextId c + 1) AND 0xfff\<rparr>"
    using eq h by (simp add: Index_healthy)
  have h': "werr (mwriter c') = None" using h by (simp add: c')
  have rep: "\<exists>c''. Index c' idx env = Some c'' \<and>
              nextId c'' = (nextId c' + 1) mod 4096 \<and>
              wlog (mwriter c'') = wlog (mwriter c') @
                [WUint32 (encodeHeader
                    \<lparr>version = 0, msgID = nextId c', msgType = messageTypeIndexUpdate\<rparr>),
                 WIndex []]" if d: "distinct (map Name idx)"
  proof -
    obtain m where m: "indexSent c' = Some m" by (simp add: c')
    have "\<forall>f \<in> set idx. m (Name f) = Some (Modified f)"
    proof (cases "indexSent c")
      case None
      then show ?thesis using m index_first_distinct(2)[OF d] by (simp add: c')
    next
      case (Some m0)
      have m': "m = m0 ++ map_of (sent_pairs (delta_spec m0 idx))"
        using m Some by (simp add: c' index_diff_distinct[OF d])
      show ?thesis
      proof
        fix f assume f: "f \<in> set idx"
        show "m (Name f) = Some (Modified f)"
        proof (cases "f \<in> set (delta_spec m0 idx)")
          case True
          then show ?thesis using delta_update_distinct(1)[OF d, of m0] m' by simp
        next
          case False
          then have old: "m0 (Name f) = Some (Modified f)" using f by (simp add: delta_spec_def)
          have "Name f \<notin> Name ` set (delta_spec m0 idx)"
          proof
            assume "Name f \<in> Name ` set (delta_spec m0 idx)"
            then obtain g where g: "g \<in> set (delta_spec m0 idx)" "Name g = Name f" by auto
            then have "g \<in> set idx" by (simp add: delta_spec_def)
            with d f g(2) have "g = f" by (meson distinct_map inj_onD)
            with g(1) False show False by simp
          qed
          then show ?thesis using delta_update_distinct(2)[OF d, of m0] m' old by simp
        qed
      qed
    qed
    then have "delta_spec m idx = []" by (simp add: delta_spec_def)
    then show ?thesis
      using h h' m by (simp add: Index_healthy index_diff_distinct[OF d] and_fff)
  qed
  have ping: "\<exists>rc c''. Ping_send c' env = Some (Blocked rc, c'') \<and>
              wlog (mwriter c'') = wlog (mwriter c') @
                [WUint32 (encodeHeader
                    \<lparr>version = 0, msgID = (nextId c + 1) mod 4096,
                     msgType = messageTypePing\<rparr>)]" if o: "\<not> closed c \<and> awaiting c \<noteq> None"
  proof -
    from o obtain aw where aw: "awaiting c' = Some aw" by (auto simp: c')
    have "\<not> closed c'" using o by (simp add: c')
    from Ping_send_healthy[OF this aw h'] h show ?thesis
      by (simp add: c' and_fff)
  qed
  show "\<exists>c'. Index c idx env = Some c' \<and>
        closed c' = closed c \<and> awaiting c' = awaiting c \<and>
        (\<exists>d. wlog (mwriter c') = wlog (mwriter c) @
                 [WUint32 (encodeHeader \<lparr>version = 0, msgID = nextId c,
                    msgType = (if indexSent c = None then messageTypeIndex
                               else messageTypeIndexUpdate)\<rparr>),
                  WIndex d]) \<and>
        (distinct (map Name idx) \<longrightarrow>
           (\<exists>c''. Index c' idx env = Some c'' \<and>
              nextId c'' = (nextId c' + 1) mod 4096 \<and>
              wlog (mwriter c'') = wlog (mwriter c') @
                [WUint32 (encodeHeader
                    \<lparr>version = 0, msgID = nextId c', msgType = messageTypeIndexUpdate\<rparr>),
                 WIndex []])) \<and>
        (\<not> closed c \<and> awaiting c \<noteq> None \<longrightarrow>
           (\<exists>rc c''. Ping_send c' env = Some (Blocked rc, c'') \<and>
              wlog (mwriter c'') = wlog (mwriter c') @
                [WUint32 (encodeHeader
                    \<lparr>version = 0, msgID = (nextId c + 1) mod 4096,
                     msgType = messageTypePing\<rparr>)]))"
    apply (rule exI[of _ c'])
    apply (intro conjI impI)
    apply (rule eq)
    apply (simp add: c')
    apply (simp add: c')
    apply (cases "indexSent c"; simp add: c')
    apply (erule rep)
    apply (erule ping)
    done
qed

theorem Index_always_one_frame_witness:
  "\<exists>c' c''. Index (NewConnection ''B'' 0) [entry ''a'' 1] io_ok = Some c' \<and> nextId c' = 1 \<and>
      Index c' [entry ''a'' 1] io_ok = Some c'' \<and> nextId c'' = 2 \<and>
      wlog (mwriter c'') = wlog (mwriter c') @
        [WUint32 (encodeHeader \<lparr>version = 0, msgID = 1, msgType = messageTypeIndexUpdate\<rparr>),
         WIndex []]"
  using Index_always_one_frame[of "NewConnection ''B'' 0" "[entry ''a'' 1]" io_ok]
  by (fastforce simp: NewConnection_def io_ok_def entry_def)

text \<open>
  The counterexample to claim C10 as written: the list \<open>[{a:1}, {a:2}]\<close> sent twice.
  The second frame is an IndexUpdate with both entries, not with none.
\<close>

theorem Index_unchanged_duplicates_counterexample:
  "map_option (wlog \<circ> mwriter)
     (run (NewConnection ''B'' 0)
        [OpIndex [entry ''a'' 1, entry ''a'' 2] io_ok, OpIndex [entry ''a'' 1, entry ''a'' 2] io_ok])
     = Some [WUint32 (encodeHeader \<lparr>version = 0, msgID = 0, msgType = messageTypeIndex\<rparr>),
             WIndex [entry ''a'' 1, entry ''a'' 2],
             WUint32 (encodeHeader \<lparr>version = 0, msgID = 1, msgType = messageTypeIndexUpdate\<rparr>),
             WIndex [entry ''a'' 1, entry ''a'' 2]]"
  by (simp add: step_def Index_def Let_def writer_defs NewConnection_def io_ok_def entry_def)

end
